theory Spec2Isabelle
  imports Main "HOL-Library.Word" "HOL-Library.Monad_Syntax"
begin

unbundle bit_operations_syntax

section \<open>The QOI codec of qoi.c, embedded\<close>

text \<open>
  The embedding follows \<^verbatim>\<open>qoi.c\<close> as it is built by the repository's Makefile, that is
  with \<^verbatim>\<open>-DNDEBUG\<close>: the \<^verbatim>\<open>assert\<close>s are compiled out and the \<^verbatim>\<open>if\<close> checks
  decide. Pointer arguments are represented by what they point to (a byte list for a
  buffer, a record for a descriptor), so the \<^verbatim>\<open>NULL\<close> tests have no counterpart.

  Every function that touches memory or loops returns an \<open>option\<close>: \<open>None\<close> stands
  for an execution without a defined result, that is an access outside a buffer or a
  loop that does not end. The \<^verbatim>\<open>errno\<close> failures are values of type \<open>error\<close>.
\<close>

type_synonym byte = "8 word"
type_synonym u32 = "32 word"

datatype error = EINVAL | ENOMEM

subsection \<open>qoi.h\<close>

definition QOI_HEADER_SIZE :: nat where "QOI_HEADER_SIZE = 14"
definition QOI_MAGIC :: u32 where "QOI_MAGIC = 0x716f6966"
definition QOI_MAXIMUM_PIXELS :: u32 where "QOI_MAXIMUM_PIXELS = 400000000"
definition QOI_MAXIMUM_RUN :: byte where "QOI_MAXIMUM_RUN = 62"

definition QOI_OP_INDEX :: byte where "QOI_OP_INDEX = 0x00"
definition QOI_OP_DIFF :: byte where "QOI_OP_DIFF = 0x40"
definition QOI_OP_LUMA :: byte where "QOI_OP_LUMA = 0x80"
definition QOI_OP_RUN :: byte where "QOI_OP_RUN = 0xc0"
definition QOI_OP_RGB :: byte where "QOI_OP_RGB = 0xfe"
definition QOI_OP_RGBA :: byte where "QOI_OP_RGBA = 0xff"
definition QOI_OP_MASK :: byte where "QOI_OP_MASK = 0xc0"
definition QOI_RUN_MASK :: byte where "QOI_RUN_MASK = 0x3f"

record qoi_desc =
  width :: u32
  height :: u32
  channels :: byte
  colorspace :: byte

text \<open>
  \<^verbatim>\<open>qoi_rgba_t\<close> is a union of the four bytes r, g, b, a and the 32-bit word \<^verbatim>\<open>v\<close>
  that overlays them. The code reads \<^verbatim>\<open>v\<close> only to compare two pixels, and two words
  are equal exactly when their four bytes are, so \<^verbatim>\<open>x.v == y.v\<close> is equality of records.
\<close>

record qoi_rgba_t =
  rgba_r :: byte
  rgba_g :: byte
  rgba_b :: byte
  rgba_a :: byte

subsection \<open>qoi.c: helper functions\<close>

definition MEMORY_SIZE :: nat where "MEMORY_SIZE = 64"

definition qoi_padding :: "byte list" where
  "qoi_padding = [0, 0, 0, 0, 0, 0, 0, 1]"

text \<open>The operands are promoted to \<^verbatim>\<open>int\<close>, so the sum does not wrap before the remainder.\<close>

definition qoi_hash :: "qoi_rgba_t \<Rightarrow> byte" where
  "qoi_hash color =
     of_nat ((unat (rgba_r color) * 3 + unat (rgba_g color) * 5
            + unat (rgba_b color) * 7 + unat (rgba_a color) * 11) mod MEMORY_SIZE)"

text \<open>
  A read of \<^verbatim>\<open>buf[i]\<close>. The buffer is the list of its bytes; an index outside it has no
  defined result.
\<close>

definition rd :: "byte list \<Rightarrow> u32 \<Rightarrow> byte option" where
  "rd buf i = (if unat i < length buf then Some (buf ! unat i) else None)"

text \<open>
  An output buffer is filled front to back, so it is represented by the bytes stored so
  far. \<open>wr cap buf i vs\<close> stores the bytes \<open>vs\<close> at \<^verbatim>\<open>buf[i]\<close>, \<^verbatim>\<open>buf[i + 1]\<close>, ...
  of a buffer of \<open>cap\<close> bytes. It has a defined result only if \<open>i\<close> is the position
  right after the bytes stored so far and the last store is below \<open>cap\<close>.
\<close>

definition wr :: "nat \<Rightarrow> byte list \<Rightarrow> u32 \<Rightarrow> byte list \<Rightarrow> byte list option" where
  "wr cap buf i vs =
     (if unat i = length buf \<and> length buf + length vs \<le> cap then Some (buf @ vs) else None)"

definition qoi_read_32 :: "byte list \<Rightarrow> u32 \<Rightarrow> (u32 \<times> u32) option" where
  "qoi_read_32 buf i = do {
     a \<leftarrow> rd buf i;
     b \<leftarrow> rd buf (i + 1);
     c \<leftarrow> rd buf (i + 2);
     d \<leftarrow> rd buf (i + 3);
     Some (push_bit 24 (ucast a) OR push_bit 16 (ucast b) OR push_bit 8 (ucast c) OR ucast d,
           i + 4)
   }"

text \<open>The four bytes \<^verbatim>\<open>qoi_write_32\<close> stores, most significant first.\<close>

definition qoi_write_32 :: "u32 \<Rightarrow> byte list" where
  "qoi_write_32 val =
     [ucast (drop_bit 24 (0xff000000 AND val)),
      ucast (drop_bit 16 (0x00ff0000 AND val)),
      ucast (drop_bit 8 (0x0000ff00 AND val)),
      ucast (0x000000ff AND val)]"

subsection \<open>qoi\_encode\<close>

text \<open>
  The local variables that change while \<^verbatim>\<open>qoi_encode\<close> and \<^verbatim>\<open>qoi_decode\<close> run. Both
  functions have \<open>idx\<close>, \<open>mem\<close>, \<open>px_curr\<close> and \<open>run\<close>; the encoder adds its output
  buffer \<open>bytes\<close> and \<open>px_prev\<close>, the decoder its output buffer \<open>px\<close>.
\<close>

record qoi_vars =
  idx :: u32
  mem :: "qoi_rgba_t list"
  px_curr :: qoi_rgba_t
  run :: byte

record enc_vars = qoi_vars +
  bytes :: "byte list"
  px_prev :: qoi_rgba_t

record dec_vars = qoi_vars +
  px :: "byte list"

text \<open>\<^verbatim>\<open>bytes[idx++] = v\<close>, for each \<open>v\<close> of \<open>vs\<close> in turn, into a buffer of \<open>sz\<close> bytes.\<close>

definition emit :: "nat \<Rightarrow> byte list \<Rightarrow> enc_vars \<Rightarrow> enc_vars option" where
  "emit sz vs st = do {
     buf \<leftarrow> wr sz (bytes st) (idx st) vs;
     Some (st\<lparr>bytes := buf, idx := idx st + of_nat (length vs)\<rparr>)
   }"

text \<open>Lines 115 to 122: load the pixel at \<open>px_pos\<close> of the input \<open>data\<close>.\<close>

definition load_px :: "byte list \<Rightarrow> byte \<Rightarrow> u32 \<Rightarrow> enc_vars \<Rightarrow> enc_vars option" where
  "load_px data chans px_pos st =
     (if chans = 4 then do {
        r \<leftarrow> rd data px_pos;
        g \<leftarrow> rd data (px_pos + 1);
        b \<leftarrow> rd data (px_pos + 2);
        a \<leftarrow> rd data (px_pos + 3);
        Some (st\<lparr>px_curr := \<lparr>rgba_r = r, rgba_g = g, rgba_b = b, rgba_a = a\<rparr>\<rparr>)
      } else do {
        r \<leftarrow> rd data (px_pos + 0);
        g \<leftarrow> rd data (px_pos + 1);
        b \<leftarrow> rd data (px_pos + 2);
        Some (st\<lparr>px_curr := (px_curr st)\<lparr>rgba_r := r, rgba_g := g, rgba_b := b\<rparr>\<rparr>)
      })"

text \<open>
  Lines 152 to 188: the bytes stored for a pixel that is neither in a run nor in the hash
  table. The differences are \<^verbatim>\<open>int8_t\<close>: computed modulo 256 and compared as signed.
\<close>

definition enc_chunk :: "qoi_rgba_t \<Rightarrow> qoi_rgba_t \<Rightarrow> byte list" where
  "enc_chunk prev cur =
     (if rgba_a cur = rgba_a prev then
        let dr = rgba_r cur - rgba_r prev;
            dg = rgba_g cur - rgba_g prev;
            db = rgba_b cur - rgba_b prev
        in if (- 2 \<le> sint dr \<and> sint dr \<le> 1)
              \<and> (- 2 \<le> sint dg \<and> sint dg \<le> 1)
              \<and> (- 2 \<le> sint db \<and> sint db \<le> 1)
           then [QOI_OP_DIFF OR push_bit 4 (dr + 2) OR push_bit 2 (dg + 2) OR (db + 2)]
           else let dr_dg = dr - dg;
                    db_dg = db - dg
                in if (- 32 \<le> sint dg \<and> sint dg \<le> 31)
                      \<and> (- 8 \<le> sint dr_dg \<and> sint dr_dg \<le> 7)
                      \<and> (- 8 \<le> sint db_dg \<and> sint db_dg \<le> 7)
                   then [QOI_OP_LUMA OR (dg + 32), push_bit 4 (dr_dg + 8) OR (db_dg + 8)]
                   else [QOI_OP_RGB, rgba_r cur, rgba_g cur, rgba_b cur]
      else [QOI_OP_RGBA, rgba_r cur, rgba_g cur, rgba_b cur, rgba_a cur])"

text \<open>Lines 115 to 193: the body of the loop, for the pixel at \<open>px_pos\<close>.\<close>

definition enc_body :: "byte list \<Rightarrow> nat \<Rightarrow> byte \<Rightarrow> u32 \<Rightarrow> u32 \<Rightarrow> enc_vars \<Rightarrow> enc_vars option" where
  "enc_body data sz chans px_end px_pos st0 = do {
     st \<leftarrow> load_px data chans px_pos st0;
     st \<leftarrow> (if px_curr st = px_prev st then do {
             let st = st\<lparr>run := run st + 1\<rparr>;
             if run st = QOI_MAXIMUM_RUN \<or> px_pos = px_end then do {
               st \<leftarrow> emit sz [QOI_OP_RUN OR (run st - 1)] st;
               Some (st\<lparr>run := 0\<rparr>)
             } else Some st
           } else do {
             st \<leftarrow> (if run st > 0 then do {
                     st \<leftarrow> emit sz [QOI_OP_RUN OR (run st - 1)] st;
                     Some (st\<lparr>run := 0\<rparr>)
                   } else Some st);
             let mem_pos = qoi_hash (px_curr st);
             if px_curr st = mem st ! unat mem_pos then
               emit sz [QOI_OP_INDEX OR mem_pos] st
             else do {
               let st = st\<lparr>mem := (mem st)[unat mem_pos := px_curr st]\<rparr>;
               emit sz (enc_chunk (px_prev st) (px_curr st)) st
             }
           });
     Some (st\<lparr>px_prev := px_curr st\<rparr>)
   }"

partial_function (option) enc_loop ::
  "byte list \<Rightarrow> nat \<Rightarrow> byte \<Rightarrow> u32 \<Rightarrow> u32 \<Rightarrow> u32 \<Rightarrow> enc_vars \<Rightarrow> enc_vars option" where
  "enc_loop data sz chans px_len px_end px_pos st =
     (if px_pos < px_len then do {
        st' \<leftarrow> enc_body data sz chans px_end px_pos st;
        enc_loop data sz chans px_len px_end (px_pos + ucast chans) st'
      } else Some st)"

text \<open>Lines 55 to 57: the test of the descriptor.\<close>

definition enc_invalid :: "qoi_desc \<Rightarrow> bool" where
  "enc_invalid desc \<longleftrightarrow>
     width desc = 0 \<or> height desc = 0
     \<or> (channels desc \<noteq> 3 \<and> channels desc \<noteq> 4)
     \<or> colorspace desc > 1 \<or> height desc \<ge> QOI_MAXIMUM_PIXELS div width desc"

text \<open>Lines 77 to 79: the size of the output buffer.\<close>

definition enc_size :: "qoi_desc \<Rightarrow> nat" where
  "enc_size desc =
     unat (width desc * height desc * (ucast (channels desc) + 1)
           + of_nat QOI_HEADER_SIZE + of_nat (length qoi_padding))"

text \<open>
  The variables as \<^verbatim>\<open>qoi_encode\<close> sets them before its loop (\<open>idx\<close> in line 88, the
  others in lines 101 to 111), and the header stored in lines 90 to 95.
\<close>

definition enc_init :: enc_vars where
  "enc_init =
     \<lparr>idx = 0,
      mem = replicate MEMORY_SIZE \<lparr>rgba_r = 0, rgba_g = 0, rgba_b = 0, rgba_a = 0\<rparr>,
      px_curr = \<lparr>rgba_r = 0, rgba_g = 0, rgba_b = 0, rgba_a = 255\<rparr>,
      run = 0,
      bytes = [],
      px_prev = \<lparr>rgba_r = 0, rgba_g = 0, rgba_b = 0, rgba_a = 255\<rparr>\<rparr>"

definition enc_header :: "nat \<Rightarrow> qoi_desc \<Rightarrow> enc_vars option" where
  "enc_header sz desc = do {
     st \<leftarrow> emit sz (qoi_write_32 QOI_MAGIC) enc_init;
     st \<leftarrow> emit sz (qoi_write_32 (width desc)) st;
     st \<leftarrow> emit sz (qoi_write_32 (height desc)) st;
     st \<leftarrow> emit sz [channels desc] st;
     emit sz [colorspace desc] st
   }"

text \<open>Lines 105 and 106.\<close>

definition enc_px_len :: "qoi_desc \<Rightarrow> u32" where
  "enc_px_len desc = width desc * height desc * ucast (channels desc)"

definition enc_px_end :: "qoi_desc \<Rightarrow> u32" where
  "enc_px_end desc = enc_px_len desc - ucast (channels desc)"

text \<open>
  \<open>malloc n\<close> tells whether the allocation of \<open>n\<close> bytes succeeds. The result is the
  buffer returned and the value stored in \<^verbatim>\<open>*size\<close>, an \<^verbatim>\<open>int\<close>.
\<close>

definition qoi_encode :: "(nat \<Rightarrow> bool) \<Rightarrow> byte list \<Rightarrow> qoi_desc \<Rightarrow> (error + byte list \<times> int) option" where
  "qoi_encode malloc data desc =
     (if enc_invalid desc then Some (Inl EINVAL)
      else
        let sz = enc_size desc
        in if \<not> malloc sz then Some (Inl ENOMEM)
        else do {
          st \<leftarrow> enc_header sz desc;
          st \<leftarrow> enc_loop data sz (channels desc) (enc_px_len desc) (enc_px_end desc) 0 st;
          st \<leftarrow> emit sz qoi_padding st;
          Some (Inr (bytes st, sint (idx st)))
        })"

subsection \<open>qoi\_decode\<close>

text \<open>
  Lines 293 to 320: one chunk is read at \<open>idx\<close> from the input \<open>data\<close> and applied, then
  the pixel is entered in the hash table, whatever the chunk was.
\<close>

definition dec_op :: "byte list \<Rightarrow> dec_vars \<Rightarrow> dec_vars option" where
  "dec_op data st0 = do {
     byte1 \<leftarrow> rd data (idx st0);
     let st = st0\<lparr>idx := idx st0 + 1\<rparr>;
     st \<leftarrow> (if byte1 = QOI_OP_RGBA then do {
             r \<leftarrow> rd data (idx st);
             g \<leftarrow> rd data (idx st + 1);
             b \<leftarrow> rd data (idx st + 2);
             a \<leftarrow> rd data (idx st + 3);
             Some (st\<lparr>px_curr := \<lparr>rgba_r = r, rgba_g = g, rgba_b = b, rgba_a = a\<rparr>,
                      idx := idx st + 4\<rparr>)
           } else if byte1 = QOI_OP_RGB then do {
             r \<leftarrow> rd data (idx st);
             g \<leftarrow> rd data (idx st + 1);
             b \<leftarrow> rd data (idx st + 2);
             Some (st\<lparr>px_curr := (px_curr st)\<lparr>rgba_r := r, rgba_g := g, rgba_b := b\<rparr>,
                      idx := idx st + 3\<rparr>)
           } else if byte1 AND QOI_OP_MASK = QOI_OP_LUMA then do {
             byte2 \<leftarrow> rd data (idx st);
             let dg = (byte1 AND 0x3f) - 32;
             let c = px_curr st;
             Some (st\<lparr>px_curr := c\<lparr>rgba_r := rgba_r c + (dg + (drop_bit 4 byte2 AND 0x0f) - 8),
                                      rgba_g := rgba_g c + dg,
                                      rgba_b := rgba_b c + (dg + (byte2 AND 0x0f) - 8)\<rparr>,
                      idx := idx st + 1\<rparr>)
           } else if byte1 AND QOI_OP_MASK = QOI_OP_DIFF then do {
             let c = px_curr st;
             Some (st\<lparr>px_curr := c\<lparr>rgba_r := rgba_r c + ((drop_bit 4 byte1 AND 0x03) - 2),
                                      rgba_g := rgba_g c + ((drop_bit 2 byte1 AND 0x03) - 2),
                                      rgba_b := rgba_b c + ((byte1 AND 0x03) - 2)\<rparr>\<rparr>)
           } else if byte1 AND QOI_OP_MASK = QOI_OP_INDEX then
             Some (st\<lparr>px_curr := mem st ! unat byte1\<rparr>)
           else if byte1 AND QOI_OP_MASK = QOI_OP_RUN then
             Some (st\<lparr>run := byte1 AND QOI_RUN_MASK\<rparr>)
           else Some st);
     Some (st\<lparr>mem := (mem st)[unat (qoi_hash (px_curr st)) := px_curr st]\<rparr>)
   }"

text \<open>
  Lines 289 to 321: the pixel of the next output position. A pending run repeats
  \<open>px_curr\<close>; otherwise a chunk is read if there is one before \<open>px_chunks\<close>; otherwise
  nothing changes.
\<close>

definition dec_step :: "byte list \<Rightarrow> u32 \<Rightarrow> dec_vars \<Rightarrow> dec_vars option" where
  "dec_step data px_chunks st =
     (if run st > 0 then Some (st\<lparr>run := run st - 1\<rparr>)
      else if idx st < px_chunks then dec_op data st
      else Some st)"

text \<open>
  Lines 324 to 330: the bytes stored for a pixel. \<open>chans\<close> is the \<^verbatim>\<open>int\<close> parameter
  \<^verbatim>\<open>channels\<close>.
\<close>

definition px_out :: "int \<Rightarrow> qoi_rgba_t \<Rightarrow> byte list" where
  "px_out chans c =
     (if chans = 4 then [rgba_r c, rgba_g c, rgba_b c, rgba_a c]
      else [rgba_r c, rgba_g c, rgba_b c])"

text \<open>
  Lines 288 to 330: the body of the loop, for the output position \<open>px_pos\<close>. \<open>px_len\<close>
  is the size of the output buffer.
\<close>

definition dec_body :: "byte list \<Rightarrow> u32 \<Rightarrow> int \<Rightarrow> u32 \<Rightarrow> u32 \<Rightarrow> dec_vars \<Rightarrow> dec_vars option" where
  "dec_body data px_chunks chans px_len px_pos st0 = do {
     st \<leftarrow> dec_step data px_chunks st0;
     buf \<leftarrow> wr (unat px_len) (px st) px_pos (px_out chans (px_curr st));
     Some (st\<lparr>px := buf\<rparr>)
   }"

partial_function (option) dec_loop ::
  "byte list \<Rightarrow> u32 \<Rightarrow> int \<Rightarrow> u32 \<Rightarrow> u32 \<Rightarrow> dec_vars \<Rightarrow> dec_vars option" where
  "dec_loop data px_chunks chans px_len px_pos st =
     (if px_pos < px_len then do {
        st' \<leftarrow> dec_body data px_chunks chans px_len px_pos st;
        dec_loop data px_chunks chans px_len (px_pos + word_of_int chans) st'
      } else Some st)"

text \<open>
  The variables as \<^verbatim>\<open>qoi_decode\<close> sets them before its loop (\<open>idx\<close> in line 248, the
  others in lines 277 to 285).
\<close>

definition dec_init :: dec_vars where
  "dec_init =
     \<lparr>idx = 0,
      mem = replicate MEMORY_SIZE \<lparr>rgba_r = 0, rgba_g = 0, rgba_b = 0, rgba_a = 0\<rparr>,
      px_curr = \<lparr>rgba_r = 0, rgba_g = 0, rgba_b = 0, rgba_a = 255\<rparr>,
      run = 0,
      px = []\<rparr>"

text \<open>
  Lines 250 to 255: the header is read, and its fields are stored in the caller's
  descriptor at once. The result is the magic number, the descriptor and \<open>idx\<close>.
\<close>

definition dec_header :: "byte list \<Rightarrow> qoi_desc \<Rightarrow> (u32 \<times> qoi_desc \<times> u32) option" where
  "dec_header data desc = do {
     (magic, i) \<leftarrow> qoi_read_32 data 0;
     (w, i) \<leftarrow> qoi_read_32 data i;
     (h, i) \<leftarrow> qoi_read_32 data i;
     c \<leftarrow> rd data i;
     cs \<leftarrow> rd data (i + 1);
     Some (magic, desc\<lparr>width := w, height := h, channels := c, colorspace := cs\<rparr>, i + 2)
   }"

text \<open>Lines 257 to 259: the test of the header.\<close>

definition dec_invalid :: "u32 \<Rightarrow> qoi_desc \<Rightarrow> bool" where
  "dec_invalid magic desc \<longleftrightarrow>
     width desc = 0 \<or> height desc = 0 \<or> channels desc < 3
     \<or> channels desc > 4 \<or> colorspace desc > 1 \<or> magic \<noteq> QOI_MAGIC
     \<or> height desc \<ge> QOI_MAXIMUM_PIXELS div width desc"

text \<open>Lines 264 and 265: the channel count of the output.\<close>

definition dec_channels :: "qoi_desc \<Rightarrow> int \<Rightarrow> int" where
  "dec_channels desc chans = (if chans = 0 then uint (channels desc) else chans)"

text \<open>Line 268, and line 283.\<close>

definition dec_px_len :: "qoi_desc \<Rightarrow> int \<Rightarrow> u32" where
  "dec_px_len desc chans = width desc * height desc * word_of_int chans"

definition dec_px_chunks :: "int \<Rightarrow> u32" where
  "dec_px_chunks sz = word_of_int (sz - int (length qoi_padding))"

text \<open>
  \<open>sz\<close> and \<open>chans\<close> are the \<^verbatim>\<open>int\<close> parameters \<^verbatim>\<open>size\<close> and \<^verbatim>\<open>channels\<close>, \<open>desc\<close>
  is the caller's descriptor as it is when the function is entered. The result is the
  value returned together with the descriptor as the function leaves it.
\<close>

definition qoi_decode ::
  "(nat \<Rightarrow> bool) \<Rightarrow> byte list \<Rightarrow> int \<Rightarrow> qoi_desc \<Rightarrow> int \<Rightarrow> ((error + byte list) \<times> qoi_desc) option" where
  "qoi_decode malloc data sz desc chans =
     (if (chans \<noteq> 0 \<and> chans \<noteq> 3 \<and> chans \<noteq> 4)
         \<or> sz < int QOI_HEADER_SIZE + int (length qoi_padding)
      then Some (Inl EINVAL, desc)
      else do {
        (magic, desc, i) \<leftarrow> dec_header data desc;
        if dec_invalid magic desc then Some (Inl EINVAL, desc)
        else do {
          let chans = dec_channels desc chans;
          let px_len = dec_px_len desc chans;
          if \<not> malloc (unat px_len) then Some (Inl ENOMEM, desc)
          else do {
            st \<leftarrow> dec_loop data (dec_px_chunks sz) chans px_len 0 (dec_init\<lparr>idx := i\<rparr>);
            Some (Inr (px st), desc)
          }
        }
      })"

section \<open>Definitions used in the statements and the proofs\<close>

definition iter :: "(nat \<Rightarrow> 'a \<Rightarrow> 'a option) \<Rightarrow> nat \<Rightarrow> nat \<Rightarrow> 'a \<Rightarrow> 'a option" where
  "iter f k n s = fold (\<lambda>j r. Option.bind r (f j)) [k..<n] (Some s)"

definition pix :: "byte list \<Rightarrow> byte \<Rightarrow> nat \<Rightarrow> qoi_rgba_t \<Rightarrow> qoi_rgba_t" where
  "pix data chans j c =
     (if chans = 4
      then \<lparr>rgba_r = data ! (j * 4), rgba_g = data ! (j * 4 + 1),
            rgba_b = data ! (j * 4 + 2), rgba_a = data ! (j * 4 + 3)\<rparr>
      else c\<lparr>rgba_r := data ! (j * unat chans), rgba_g := data ! (j * unat chans + 1),
             rgba_b := data ! (j * unat chans + 2)\<rparr>)"

definition enc_out :: "bool \<Rightarrow> qoi_rgba_t \<Rightarrow> enc_vars \<Rightarrow> byte list" where
  "enc_out fin c s =
     (if c = px_prev s then
        (if run s + 1 = QOI_MAXIMUM_RUN \<or> fin then [QOI_OP_RUN OR run s] else [])
      else (if run s > 0 then [QOI_OP_RUN OR (run s - 1)] else [])
           @ (if c = mem s ! unat (qoi_hash c) then [QOI_OP_INDEX OR qoi_hash c]
              else enc_chunk (px_prev s) c))"

definition enc_next :: "bool \<Rightarrow> qoi_rgba_t \<Rightarrow> enc_vars \<Rightarrow> enc_vars" where
  "enc_next fin c s =
     s\<lparr>idx := idx s + of_nat (length (enc_out fin c s)),
       mem := (if c = px_prev s \<or> c = mem s ! unat (qoi_hash c) then mem s
               else (mem s)[unat (qoi_hash c) := c]),
       px_curr := c,
       run := (if c = px_prev s \<and> \<not> (run s + 1 = QOI_MAXIMUM_RUN \<or> fin) then run s + 1 else 0),
       bytes := bytes s @ enc_out fin c s,
       px_prev := c\<rparr>"

fun enc_at :: "byte list \<Rightarrow> byte \<Rightarrow> u32 \<Rightarrow> enc_vars \<Rightarrow> nat \<Rightarrow> enc_vars" where
  "enc_at data chans px_end s0 0 = s0"
| "enc_at data chans px_end s0 (Suc k) =
     (let s = enc_at data chans px_end s0 k
      in enc_next (of_nat (k * unat chans) = px_end) (pix data chans k (px_curr s)) s)"

definition px_zero :: qoi_rgba_t where
  "px_zero = \<lparr>rgba_r = 0, rgba_g = 0, rgba_b = 0, rgba_a = 0\<rparr>"

definition px_start :: qoi_rgba_t where
  "px_start = \<lparr>rgba_r = 0, rgba_g = 0, rgba_b = 0, rgba_a = 255\<rparr>"

definition enc_inv :: "byte \<Rightarrow> enc_vars \<Rightarrow> bool" where
  "enc_inv chans s \<longleftrightarrow>
     unat (idx s) = length (bytes s) \<and> unat (run s) \<le> 61 \<and> px_prev s = px_curr s
     \<and> (chans \<noteq> 4 \<longrightarrow> rgba_a (px_curr s) = 255) \<and> length (mem s) = 64
     \<and> (mem s ! unat (qoi_hash (px_prev s)) = px_prev s
        \<or> (px_prev s = px_start \<and> mem s ! 53 = px_zero))"

definition pend :: "enc_vars \<Rightarrow> nat" where
  "pend s = (if run s = 0 then 0 else 1)"

definition npx :: "qoi_desc \<Rightarrow> nat" where
  "npx desc = unat (width desc) * unat (height desc)"

definition qoi_header :: "qoi_desc \<Rightarrow> byte list" where
  "qoi_header desc =
     qoi_write_32 QOI_MAGIC @ qoi_write_32 (width desc) @ qoi_write_32 (height desc)
     @ [channels desc, colorspace desc]"

definition enc_start :: "qoi_desc \<Rightarrow> enc_vars" where
  "enc_start desc = enc_init\<lparr>idx := 14, bytes := qoi_header desc\<rparr>"

definition enc_final :: "byte list \<Rightarrow> qoi_desc \<Rightarrow> enc_vars" where
  "enc_final data desc =
     enc_at data (channels desc) (enc_px_end desc) (enc_start desc) (npx desc)"

definition coh :: "qoi_rgba_t list \<Rightarrow> qoi_rgba_t list \<Rightarrow> bool" where
  "coh E D \<longleftrightarrow> (\<forall>i<64. D ! i = E ! i \<or> (i = 53 \<and> E ! i = px_zero \<and> D ! i = px_start))"

definition enc_setup :: "byte list \<Rightarrow> byte \<Rightarrow> u32 \<Rightarrow> enc_vars \<Rightarrow> nat \<Rightarrow> bool" where
  "enc_setup data chans px_end s0 n \<longleftrightarrow>
     (chans = 3 \<or> chans = 4) \<and> 0 < n \<and> length data = n * unat chans
     \<and> px_end = of_nat ((n - 1) * unat chans) \<and> enc_inv chans s0 \<and> run s0 = 0
     \<and> length (bytes s0) + n * (unat chans + 1) + 13 < 2 ^ 32"

definition sim_idx :: "byte list \<Rightarrow> enc_vars \<Rightarrow> dec_vars \<Rightarrow> bool" where
  "sim_idx F s d \<longleftrightarrow>
     (if run s = 0 then idx d = idx s \<and> run d = 0
      else unat (idx d) = length (bytes s) + 1
           \<and> (\<exists>x. F ! length (bytes s) = QOI_OP_RUN OR x \<and> unat x \<le> 61
                    \<and> unat (run d) + unat (run s) = unat x + 1))"

definition sim_rel :: "byte list \<Rightarrow> enc_vars \<Rightarrow> dec_vars \<Rightarrow> bool" where
  "sim_rel F s d \<longleftrightarrow>
     px_curr d = px_curr s \<and> length (mem d) = 64 \<and> coh (mem s) (mem d) \<and> sim_idx F s d"

definition enc_stream :: "byte list \<Rightarrow> qoi_desc \<Rightarrow> byte list" where
  "enc_stream data desc = bytes (enc_final data desc) @ qoi_padding"

text \<open>
  The malformed descriptors as the specification lists them: a zero dimension, a channel
  count other than 3 and 4, a colour space above 1, or a product of height and width
  above the cap of 400 000 000 pixels.
\<close>

definition spec_malformed :: "qoi_desc \<Rightarrow> bool" where
  "spec_malformed desc \<longleftrightarrow>
     width desc = 0 \<or> height desc = 0 \<or> (channels desc \<noteq> 3 \<and> channels desc \<noteq> 4)
     \<or> colorspace desc > 1 \<or> unat (height desc) * unat (width desc) > 400000000"

text \<open>The 32-bit word whose bytes stand at \<open>i\<close>, \<open>i + 1\<close>, \<open>i + 2\<close>, \<open>i + 3\<close>, most significant first.\<close>

definition hdr_u32 :: "byte list \<Rightarrow> nat \<Rightarrow> u32" where
  "hdr_u32 data i =
     push_bit 24 (ucast (data ! i)) OR push_bit 16 (ucast (data ! (i + 1)))
     OR push_bit 8 (ucast (data ! (i + 2))) OR ucast (data ! (i + 3))"

text \<open>The descriptor after the header of \<open>data\<close> has been stored in \<open>desc\<close>.\<close>

definition hdr_desc :: "byte list \<Rightarrow> qoi_desc \<Rightarrow> qoi_desc" where
  "hdr_desc data desc =
     desc\<lparr>width := hdr_u32 data 4, height := hdr_u32 data 8,
          channels := data ! 12, colorspace := data ! 13\<rparr>"

text \<open>
  The variables of \<^verbatim>\<open>qoi_decode\<close> after \<open>k\<close> pixels: what its loop returns when it is
  stopped at the output position \<open>k * channels\<close>.
\<close>

definition dec_vars_after :: "byte list \<Rightarrow> int \<Rightarrow> qoi_desc \<Rightarrow> int \<Rightarrow> nat \<Rightarrow> dec_vars option" where
  "dec_vars_after data sz desc chans k = do {
     (magic, desc, i) \<leftarrow> dec_header data desc;
     let chans = dec_channels desc chans;
     dec_loop data (dec_px_chunks sz) chans (of_nat k * word_of_int chans) 0 (dec_init\<lparr>idx := i\<rparr>)
   }"


text \<open>The pixel buffer of \<open>n\<close> pixels equal to the initial pixel (0, 0, 0, 255).\<close>

definition start_pixels :: "byte \<Rightarrow> nat \<Rightarrow> byte list" where
  "start_pixels chans n = concat (replicate n (if chans = 4 then [0, 0, 0, 255] else [0, 0, 0]))"

section \<open>Lemmas\<close>

declare enc_loop.simps [code]

declare dec_loop.simps [code]

lemmas qoi_consts = QOI_HEADER_SIZE_def QOI_MAGIC_def QOI_MAXIMUM_PIXELS_def QOI_MAXIMUM_RUN_def
  QOI_OP_INDEX_def QOI_OP_DIFF_def QOI_OP_LUMA_def QOI_OP_RUN_def QOI_OP_RGB_def QOI_OP_RGBA_def
  QOI_OP_MASK_def QOI_RUN_MASK_def MEMORY_SIZE_def qoi_padding_def

lemma cap_check:
  "width desc \<noteq> 0 \<Longrightarrow>
   (QOI_MAXIMUM_PIXELS div width desc \<le> height desc)
     \<longleftrightarrow> 400000000 div unat (width desc) \<le> unat (height desc)"
  by (simp add: QOI_MAXIMUM_PIXELS_def word_le_nat_alt unat_div)

lemma fold_bind_None: "fold (\<lambda>j r. Option.bind r (f j)) xs None = None"
  by (induction xs) simp_all

lemma fold_bind_start:
  "fold (\<lambda>j r. Option.bind r (f j)) xs r = Option.bind r (\<lambda>s. fold (\<lambda>j r. Option.bind r (f j)) xs (Some s))"
  by (cases r) (simp_all add: fold_bind_None)

lemma iter_same [simp]: "iter f k k s = Some s"
  by (simp add: iter_def)

lemma iter_ge: "n \<le> k \<Longrightarrow> iter f k n s = Some s"
  by (simp add: iter_def)

lemma iter_Suc: "k \<le> n \<Longrightarrow> iter f k (Suc n) s = Option.bind (iter f k n s) (f n)"
  by (simp add: iter_def)

lemma iter_first: "k < n \<Longrightarrow> iter f k n s = Option.bind (f k s) (iter f (Suc k) n)"
  unfolding iter_def
  by (subst upt_conv_Cons, assumption, simp, subst fold_bind_start, simp)


lemma unat_of_nat_u32: "n < 2 ^ 32 \<Longrightarrow> unat (of_nat n :: u32) = n"
  by (simp add: unat_of_nat)

lemma of_nat_less_u32: "a < 2 ^ 32 \<Longrightarrow> b < 2 ^ 32 \<Longrightarrow> (of_nat a :: u32) < of_nat b \<longleftrightarrow> a < b"
  by (simp add: word_less_nat_alt unat_of_nat_u32)

lemma enc_loop_iter:
  assumes c: "0 < unat chans" and n: "n * unat chans < 2 ^ 32"
  shows "k \<le> n \<Longrightarrow>
    enc_loop data sz chans (of_nat (n * unat chans)) px_end (of_nat (k * unat chans)) st
      = iter (\<lambda>j. enc_body data sz chans px_end (of_nat (j * unat chans))) k n st"
proof (induction "n - k" arbitrary: k st)
  case 0
  then have "k = n" by simp
  then show ?case by (subst enc_loop.simps) simp
next
  case (Suc d)
  then have kn: "k < n" by simp
  have kc: "k * unat chans < n * unat chans" using kn c by simp
  then have "k * unat chans < 2 ^ 32" using n by linarith
  then have lt: "(of_nat (k * unat chans) :: u32) < of_nat (n * unat chans)"
    using n kc by (simp only: of_nat_less_u32)
  have step: "(of_nat (k * unat chans) :: u32) + ucast chans = of_nat (Suc k * unat chans)"
    by (simp add: algebra_simps)
  have IH: "\<And>st'. enc_loop data sz chans (of_nat (n * unat chans)) px_end (of_nat (Suc k * unat chans)) st'
      = iter (\<lambda>j. enc_body data sz chans px_end (of_nat (j * unat chans))) (Suc k) n st'"
    using Suc.hyps(1)[of "Suc k"] Suc.hyps(2) kn by simp
  have "enc_loop data sz chans (of_nat (n * unat chans)) px_end (of_nat (k * unat chans)) st
      = Option.bind (enc_body data sz chans px_end (of_nat (k * unat chans)) st)
          (\<lambda>st'. enc_loop data sz chans (of_nat (n * unat chans)) px_end (of_nat (Suc k * unat chans)) st')"
    by (subst enc_loop.simps) (simp only: lt if_True step)
  also have "\<dots> = Option.bind (enc_body data sz chans px_end (of_nat (k * unat chans)) st)
          (iter (\<lambda>j. enc_body data sz chans px_end (of_nat (j * unat chans))) (Suc k) n)"
    by (simp only: IH)
  also have "\<dots> = iter (\<lambda>j. enc_body data sz chans px_end (of_nat (j * unat chans))) k n st"
    by (simp only: iter_first[OF kn])
  finally show ?case .
qed

lemma dec_loop_iter:
  assumes c: "0 < c" and cw: "(word_of_int chans :: u32) = of_nat c" and n: "n * c < 2 ^ 32"
  shows "k \<le> n \<Longrightarrow>
    dec_loop data px_chunks chans (of_nat (n * c)) (of_nat (k * c)) st
      = iter (\<lambda>j. dec_body data px_chunks chans (of_nat (n * c)) (of_nat (j * c))) k n st"
proof (induction "n - k" arbitrary: k st)
  case 0
  then have "k = n" by simp
  then show ?case by (subst dec_loop.simps) simp
next
  case (Suc d)
  then have kn: "k < n" by simp
  have kc: "k * c < n * c" using kn c by simp
  then have "k * c < 2 ^ 32" using n by linarith
  then have lt: "(of_nat (k * c) :: u32) < of_nat (n * c)"
    using n kc by (simp only: of_nat_less_u32)
  have step: "(of_nat (k * c) :: u32) + word_of_int chans = of_nat (Suc k * c)"
    by (simp add: cw algebra_simps)
  have IH: "\<And>st'. dec_loop data px_chunks chans (of_nat (n * c)) (of_nat (Suc k * c)) st'
      = iter (\<lambda>j. dec_body data px_chunks chans (of_nat (n * c)) (of_nat (j * c))) (Suc k) n st'"
    using Suc.hyps(1)[of "Suc k"] Suc.hyps(2) kn by simp
  have "dec_loop data px_chunks chans (of_nat (n * c)) (of_nat (k * c)) st
      = Option.bind (dec_body data px_chunks chans (of_nat (n * c)) (of_nat (k * c)) st)
          (\<lambda>st'. dec_loop data px_chunks chans (of_nat (n * c)) (of_nat (Suc k * c)) st')"
    by (subst dec_loop.simps) (simp only: lt if_True step)
  also have "\<dots> = Option.bind (dec_body data px_chunks chans (of_nat (n * c)) (of_nat (k * c)) st)
          (iter (\<lambda>j. dec_body data px_chunks chans (of_nat (n * c)) (of_nat (j * c))) (Suc k) n)"
    by (simp only: IH)
  also have "\<dots> = iter (\<lambda>j. dec_body data px_chunks chans (of_nat (n * c)) (of_nat (j * c))) k n st"
    by (simp only: iter_first[OF kn])
  finally show ?case .
qed

lemma rd_Some: "unat i < length buf \<Longrightarrow> rd buf i = Some (buf ! unat i)"
  by (simp add: rd_def)

lemma unat_plus_small:
  "unat (i :: u32) + m < 2 ^ 32 \<Longrightarrow> unat (i + of_nat m) = unat i + m"
proof -
  assume a: "unat i + m < 2 ^ 32"
  then have m: "unat (of_nat m :: u32) = m" by (intro unat_of_nat_u32) simp
  show ?thesis using a unat_add_lem[of i "of_nat m"] m by simp
qed

lemma unat_plus_1: "unat (i :: u32) + 1 < 2 ^ 32 \<Longrightarrow> unat (i + 1) = unat i + 1"
  using unat_plus_small[of i 1] by simp

lemma unat_plus_2: "unat (i :: u32) + 2 < 2 ^ 32 \<Longrightarrow> unat (i + 2) = unat i + 2"
  using unat_plus_small[of i 2] by simp

lemma unat_plus_3: "unat (i :: u32) + 3 < 2 ^ 32 \<Longrightarrow> unat (i + 3) = unat i + 3"
  using unat_plus_small[of i 3] by simp

lemma unat_plus_4: "unat (i :: u32) + 4 < 2 ^ 32 \<Longrightarrow> unat (i + 4) = unat i + 4"
  using unat_plus_small[of i 4] by simp

lemma load_px_eq:
  assumes c: "chans = 3 \<or> chans = 4"
    and len: "(j + 1) * unat chans \<le> length data" and small: "length data < 2 ^ 32"
    and pos: "pos = of_nat (j * unat chans)"
  shows "load_px data chans pos st = Some (st\<lparr>px_curr := pix data chans j (px_curr st)\<rparr>)"
proof -
  have c34: "unat chans = 3 \<or> unat chans = 4" using c by auto
  have jl: "j * unat chans + unat chans \<le> length data" using len by simp
  then have "j * unat chans < 2 ^ 32" using small by linarith
  then have p: "unat pos = j * unat chans"
    unfolding pos by (rule unat_of_nat_u32)
  have b: "j * unat chans + 2 < length data" using jl c34 by linarith
  have b3: "chans = 4 \<Longrightarrow> j * unat chans + 3 < length data" using jl by simp
  have "unat pos + 2 < 2 ^ 32" using p b small by linarith
  then have u: "unat (pos + 1) = j * unat chans + 1" "unat (pos + 2) = j * unat chans + 2"
    using unat_plus_1[of pos] unat_plus_2[of pos] p by simp_all
  have u3: "unat (pos + 3) = j * unat chans + 3" if "chans = 4"
  proof -
    have "unat pos + 3 < 2 ^ 32" using p b3[OF that] small by linarith
    then show ?thesis using unat_plus_3[of pos] p by simp
  qed
  show ?thesis
  proof (cases "chans = 4")
    case True
    have "rd data pos = Some (data ! (j * 4))" "rd data (pos + 1) = Some (data ! (j * 4 + 1))"
      "rd data (pos + 2) = Some (data ! (j * 4 + 2))" "rd data (pos + 3) = Some (data ! (j * 4 + 3))"
      using p u u3[OF True] b b3[OF True] True by (simp_all add: rd_def)
    then show ?thesis using True by (simp add: load_px_def pix_def)
  next
    case False
    have "rd data pos = Some (data ! (j * unat chans))"
      "rd data (pos + 1) = Some (data ! (j * unat chans + 1))"
      "rd data (pos + 2) = Some (data ! (j * unat chans + 2))"
      using p u b by (simp_all add: rd_def)
    then show ?thesis using False by (simp add: load_px_def pix_def)
  qed
qed

lemma emit_eq:
  "unat (idx st) = length (bytes st) \<Longrightarrow> length (bytes st) + length vs \<le> sz \<Longrightarrow>
   emit sz vs st = Some (st\<lparr>bytes := bytes st @ vs, idx := idx st + of_nat (length vs)\<rparr>)"
  by (simp add: emit_def wr_def)

lemma emit_run_reset:
  "unat (idx st) = length (bytes st) \<Longrightarrow> length (bytes st) + 1 \<le> sz \<Longrightarrow>
   emit sz [v] st \<bind> (\<lambda>st. Some (st\<lparr>run := 0\<rparr>))
     = Some (st\<lparr>bytes := bytes st @ [v], idx := idx st + 1, run := 0\<rparr>)"
  by (simp add: emit_eq)

lemma enc_body_eq:
  assumes c: "chans = 3 \<or> chans = 4"
    and len: "(j + 1) * unat chans \<le> length data" and small: "length data < 2 ^ 32"
    and pos: "pos = of_nat (j * unat chans)"
    and i: "unat (idx st) = length (bytes st)"
    and room: "length (bytes st) + length (enc_out (pos = px_end) (pix data chans j (px_curr st)) st) \<le> sz"
    and sz: "sz < 2 ^ 32"
  shows "enc_body data sz chans px_end pos st
           = Some (enc_next (pos = px_end) (pix data chans j (px_curr st)) st)"
proof -
  let ?c = "pix data chans j (px_curr st)"
  let ?fin = "pos = px_end"
  let ?st1 = "st\<lparr>px_curr := ?c\<rparr>"
  have lc: "load_px data chans pos st = Some ?st1"
    by (rule load_px_eq[OF c len small pos])
  have i1: "unat (idx st + 1) = length (bytes st) + 1" if "length (bytes st) < sz"
  proof -
    have "unat (idx st) + 1 < 2 ^ 32" using that i sz by linarith
    then show ?thesis using unat_plus_1[of "idx st"] i by simp
  qed
  show ?thesis
  proof (cases "?c = px_prev st")
    case True
    show ?thesis
    proof (cases "run st + 1 = QOI_MAXIMUM_RUN \<or> ?fin")
      case flush: True
      then have out: "enc_out ?fin ?c st = [QOI_OP_RUN OR run st]"
        using True by (simp add: enc_out_def)
      have "length (bytes st) + 1 \<le> sz" using room out by simp
      then have "emit sz [QOI_OP_RUN OR run st] (?st1\<lparr>run := run st + 1\<rparr>)
          = Some (?st1\<lparr>run := run st + 1, bytes := bytes st @ [QOI_OP_RUN OR run st], idx := idx st + 1\<rparr>)"
        using i by (simp add: emit_eq)
      then show ?thesis
        using True flush out
        by (simp add: enc_body_def lc enc_next_def Let_def)
    next
      case noflush: False
      then have out: "enc_out ?fin ?c st = []"
        using True by (simp add: enc_out_def)
      show ?thesis
        using True noflush out
        by (simp add: enc_body_def lc enc_next_def Let_def)
    qed
  next
    case False
    show ?thesis
    proof (cases "run st > 0")
      case r: True
      then have r0: "run st \<noteq> 0" by (simp add: word_gt_0)
      have b1: "length (bytes st) < sz"
        using room False r by (simp add: enc_out_def)
      note j1 = i1[OF b1]
      show ?thesis
      proof (cases "?c = mem st ! unat (qoi_hash ?c)")
        case True
        have "Suc (Suc (length (bytes st))) \<le> sz"
          using room False r True by (simp add: enc_out_def)
        then show ?thesis
          using False r True i j1 b1
          by (simp add: enc_body_def lc emit_def wr_def enc_out_def enc_next_def Let_def add.assoc)
      next
        case miss: False
        have "Suc (length (bytes st) + length (enc_chunk (px_prev st) ?c)) \<le> sz"
          using room False r miss by (simp add: enc_out_def)
        then show ?thesis
          using False r miss i j1 b1
          by (simp add: enc_body_def lc emit_def wr_def enc_out_def enc_next_def Let_def add.assoc)
      qed
    next
      case r: False
      then have r0: "run st = 0" by (simp add: word_gt_0)
      show ?thesis
      proof (cases "?c = mem st ! unat (qoi_hash ?c)")
        case True
        have "Suc (length (bytes st)) \<le> sz"
          using room False r0 True by (simp add: enc_out_def)
        then show ?thesis
          using False r0 True i
          by (simp add: enc_body_def lc emit_def wr_def enc_out_def enc_next_def Let_def)
      next
        case miss: False
        have "length (bytes st) + length (enc_chunk (px_prev st) ?c) \<le> sz"
          using room False r0 miss by (simp add: enc_out_def)
        then show ?thesis
          using False r0 miss i
          by (simp add: enc_body_def lc emit_def wr_def enc_out_def enc_next_def Let_def)
      qed
    qed
  qed
qed

lemma qoi_hash_less: "unat (qoi_hash c) < 64"
proof -
  let ?n = "(unat (rgba_r c) * 3 + unat (rgba_g c) * 5 + unat (rgba_b c) * 7 + unat (rgba_a c) * 11) mod 64"
  have "?n < 64" by simp
  then have "unat (of_nat ?n :: byte) = ?n" by (simp add: unat_of_nat)
  then show ?thesis unfolding qoi_hash_def MEMORY_SIZE_def using \<open>?n < 64\<close> by simp
qed

lemma length_enc_chunk: "length (enc_chunk p c) \<le> 5"
  by (simp add: enc_chunk_def Let_def)

lemma length_enc_chunk_same_alpha: "rgba_a c = rgba_a p \<Longrightarrow> length (enc_chunk p c) \<le> 4"
  by (simp add: enc_chunk_def Let_def)

lemma length_enc_chunk_pos: "0 < length (enc_chunk p c)"
  by (simp add: enc_chunk_def Let_def)

lemma pix_alpha: "chans \<noteq> 4 \<Longrightarrow> rgba_a (pix data chans k c) = rgba_a c"
  by (simp add: pix_def)

lemma run_succ:
  fixes r :: byte
  assumes "unat r \<le> 61"
  shows "unat (r + 1) = unat r + 1" and "r + 1 = 62 \<longleftrightarrow> unat r = 61" and "r + 1 \<noteq> 0"
proof -
  have "unat r + unat (1 :: byte) < 2 ^ LENGTH(8)" using assms by simp
  then show u: "unat (r + 1) = unat r + 1" using unat_add_lem[of r 1] by simp
  show "r + 1 = 62 \<longleftrightarrow> unat r = 61"
  proof
    assume "r + 1 = 62" then have "unat (r + 1) = 62" by simp
    then show "unat r = 61" using u by simp
  next
    assume "unat r = 61" then have "unat (r + 1) = unat (62 :: byte)" using u by simp
    then show "r + 1 = 62" by (simp only: word_unat_eq_iff)
  qed
  show "r + 1 \<noteq> 0" using u by (metis Suc_eq_plus1 nat.simps(3) unat_0)
qed

lemma length_enc_out:
  fixes chans :: byte
  assumes "chans \<noteq> 4 \<longrightarrow> rgba_a c = rgba_a (px_prev s)" and ch: "chans = 3 \<or> chans = 4"
    and r: "unat (run s) \<le> 61"
  shows "length (enc_out fin c s) + pend (enc_next fin c s) \<le> pend s + (unat chans + 1)"
proof (cases "c = px_prev s")
  case True
  then show ?thesis using run_succ(3)[OF r]
    by (auto simp: enc_out_def enc_next_def pend_def)
next
  case False
  have "length (enc_chunk (px_prev s) c) \<le> unat chans + 1"
    using ch assms(1) length_enc_chunk[of "px_prev s" c] length_enc_chunk_same_alpha[of c "px_prev s"]
    by auto
  then show ?thesis using False
    by (auto simp: enc_out_def enc_next_def pend_def word_gt_0)
qed

lemma enc_next_inv:
  assumes inv: "enc_inv chans s" and ch: "chans = 3 \<or> chans = 4"
    and B: "length (bytes s) + pend s \<le> B" and small: "B + 5 < 2 ^ 32"
    and c: "c = pix data chans k (px_curr s)"
  shows "enc_inv chans (enc_next fin c s)"
    and "length (bytes (enc_next fin c s)) + pend (enc_next fin c s) \<le> B + (unat chans + 1)"
    and "fin \<Longrightarrow> run (enc_next fin c s) = 0"
proof -
  have r: "unat (run s) \<le> 61" and i: "unat (idx s) = length (bytes s)"
    and pc: "px_prev s = px_curr s" and lm: "length (mem s) = 64"
    and al: "chans \<noteq> 4 \<longrightarrow> rgba_a (px_curr s) = 255"
    and J: "mem s ! unat (qoi_hash (px_prev s)) = px_prev s
        \<or> (px_prev s = px_start \<and> mem s ! 53 = px_zero)"
    using inv by (auto simp: enc_inv_def)
  have alc: "chans \<noteq> 4 \<longrightarrow> rgba_a c = rgba_a (px_prev s)"
    using pix_alpha[of chans data k "px_curr s"] c pc by auto
  have lo: "length (enc_out fin c s) + pend (enc_next fin c s) \<le> pend s + (unat chans + 1)"
    by (rule length_enc_out[OF alc ch r])
  have c34: "unat chans = 3 \<or> unat chans = 4" using ch by auto
  show b2: "length (bytes (enc_next fin c s)) + pend (enc_next fin c s) \<le> B + (unat chans + 1)"
    using lo B by (simp add: enc_next_def)
  show "fin \<Longrightarrow> run (enc_next fin c s) = 0"
    by (simp add: enc_next_def)
  have "unat (idx s) + length (enc_out fin c s) < 2 ^ 32"
    using lo B small i c34 by linarith
  then have i': "unat (idx s + of_nat (length (enc_out fin c s))) = length (bytes s) + length (enc_out fin c s)"
    using unat_plus_small[of "idx s" "length (enc_out fin c s)"] i by simp
  have r': "unat (run (enc_next fin c s)) \<le> 61"
    using run_succ[OF r] r by (auto simp: enc_next_def QOI_MAXIMUM_RUN_def)
  have al': "chans \<noteq> 4 \<longrightarrow> rgba_a c = 255" using alc al pc by auto
  have J': "mem (enc_next fin c s) ! unat (qoi_hash c) = c
        \<or> (c = px_start \<and> mem (enc_next fin c s) ! 53 = px_zero)"
    using J lm qoi_hash_less[of c] by (auto simp: enc_next_def)
  show "enc_inv chans (enc_next fin c s)"
    unfolding enc_inv_def using i' r' al' J' lm
    by (simp add: enc_next_def)
qed

lemma enc_at_inv:
  fixes chans :: byte
  assumes inv0: "enc_inv chans s0" and ch: "chans = 3 \<or> chans = 4"
    and B0: "length (bytes s0) + pend s0 \<le> B0"
    and small: "B0 + n * (unat chans + 1) + 5 < 2 ^ 32"
  shows "k \<le> n \<Longrightarrow> enc_inv chans (enc_at data chans px_end s0 k)
      \<and> length (bytes (enc_at data chans px_end s0 k)) + pend (enc_at data chans px_end s0 k)
           \<le> B0 + k * (unat chans + 1)"
proof (induction k)
  case 0
  then show ?case using inv0 B0 by simp
next
  case (Suc k)
  let ?s = "enc_at data chans px_end s0 k"
  have IH: "enc_inv chans ?s" "length (bytes ?s) + pend ?s \<le> B0 + k * (unat chans + 1)"
    using Suc by simp_all
  have "k * (unat chans + 1) \<le> n * (unat chans + 1)" using Suc.prems by (intro mult_le_mono1) simp
  then have sm: "B0 + k * (unat chans + 1) + 5 < 2 ^ 32" using small by linarith
  show ?case
    using enc_next_inv(1,2)[OF IH(1) ch IH(2) sm refl, of "of_nat (k * unat chans) = px_end" data k]
    by (simp add: Let_def)
qed

lemma enc_at_fin:
  fixes chans :: byte
  assumes inv0: "enc_inv chans s0" and ch: "chans = 3 \<or> chans = 4"
    and B0: "length (bytes s0) + pend s0 \<le> B0"
    and small: "B0 + n * (unat chans + 1) + 5 < 2 ^ 32"
    and k: "k < n" and e: "px_end = of_nat (k * unat chans)"
  shows "run (enc_at data chans px_end s0 (Suc k)) = 0"
proof -
  let ?s = "enc_at data chans px_end s0 k"
  have IH: "enc_inv chans ?s" "length (bytes ?s) + pend ?s \<le> B0 + k * (unat chans + 1)"
    using enc_at_inv[OF inv0 ch B0 small, of k data px_end] k by simp_all
  have "k * (unat chans + 1) \<le> n * (unat chans + 1)" using k by (intro mult_le_mono1) simp
  then have sm: "B0 + k * (unat chans + 1) + 5 < 2 ^ 32" using small by linarith
  show ?thesis
    using enc_next_inv(3)[OF IH(1) ch IH(2) sm refl, of "of_nat (k * unat chans) = px_end" data k] e
    by (simp add: Let_def)
qed

lemma enc_iter_eq:
  fixes chans :: byte
  assumes inv0: "enc_inv chans s0" and ch: "chans = 3 \<or> chans = 4"
    and B0: "length (bytes s0) + pend s0 \<le> B0"
    and sz: "B0 + n * (unat chans + 1) \<le> sz" "sz + 5 < 2 ^ 32"
    and len: "n * unat chans \<le> length data" "length data < 2 ^ 32"
  shows "k \<le> n \<Longrightarrow>
    iter (\<lambda>j. enc_body data sz chans px_end (of_nat (j * unat chans))) 0 k s0
      = Some (enc_at data chans px_end s0 k)"
proof (induction k)
  case 0
  show ?case by simp
next
  case (Suc k)
  let ?s = "enc_at data chans px_end s0 k"
  let ?s' = "enc_at data chans px_end s0 (Suc k)"
  have small: "B0 + n * (unat chans + 1) + 5 < 2 ^ 32" using sz by linarith
  have I: "enc_inv chans ?s"
    using enc_at_inv[OF inv0 ch B0 small, of k data px_end] Suc.prems by simp
  have I': "length (bytes ?s') + pend ?s' \<le> B0 + Suc k * (unat chans + 1)"
    using enc_at_inv[OF inv0 ch B0 small, of "Suc k" data px_end] Suc.prems by blast
  have "Suc k * (unat chans + 1) \<le> n * (unat chans + 1)"
    using Suc.prems by (intro mult_le_mono1)
  then have "length (bytes ?s') \<le> sz" using I' sz(1) by linarith
  then have room: "length (bytes ?s) + length (enc_out (of_nat (k * unat chans) = px_end)
       (pix data chans k (px_curr ?s)) ?s) \<le> sz"
    by (simp add: Let_def enc_next_def)
  have "(k + 1) * unat chans \<le> n * unat chans" using Suc.prems by (intro mult_le_mono1) simp
  then have l: "(k + 1) * unat chans \<le> length data" using len(1) by linarith
  have i: "unat (idx ?s) = length (bytes ?s)" using I by (simp add: enc_inv_def)
  have s32: "sz < 2 ^ 32" using sz(2) by linarith
  have body: "enc_body data sz chans px_end (of_nat (k * unat chans)) ?s = Some ?s'"
    using enc_body_eq[OF ch l len(2) refl i room s32] by (simp add: Let_def)
  have "iter (\<lambda>j. enc_body data sz chans px_end (of_nat (j * unat chans))) 0 k s0 = Some ?s"
    using Suc by simp
  then show ?case
    by (simp only: iter_Suc[OF le0] bind.bind_lunit body)
qed

lemma enc_at_bytes_prefix:
  "k \<le> m \<Longrightarrow> \<exists>rest. bytes (enc_at data chans px_end s0 m) = bytes (enc_at data chans px_end s0 k) @ rest"
proof (induction m)
  case 0
  then show ?case by simp
next
  case (Suc m)
  show ?case
  proof (cases "k = Suc m")
    case True
    then show ?thesis by simp
  next
    case False
    then have "k \<le> m" using Suc.prems by simp
    then obtain rest where "bytes (enc_at data chans px_end s0 m) = bytes (enc_at data chans px_end s0 k) @ rest"
      using Suc.IH by blast
    then show ?thesis by (simp add: Let_def enc_next_def)
  qed
qed

lemma length_qoi_header [simp]: "length (qoi_header desc) = 14"
  by (simp add: qoi_header_def qoi_write_32_def)

lemma enc_valid_arith:
  assumes v: "\<not> enc_invalid desc"
  shows "0 < npx desc" and "npx desc < 400000000"
    and "channels desc = 3 \<or> channels desc = 4"
    and "unat (channels desc) = 3 \<or> unat (channels desc) = 4"
    and "colorspace desc \<le> 1"
proof -
  have w0: "width desc \<noteq> 0" and h0: "height desc \<noteq> 0"
    and lt: "\<not> QOI_MAXIMUM_PIXELS div width desc \<le> height desc"
    using v by (auto simp: enc_invalid_def)
  have w: "0 < unat (width desc)" and h: "0 < unat (height desc)"
    using w0 h0 by (simp_all add: unat_gt_0)
  then show "0 < npx desc" by (simp add: npx_def)
  have "unat (height desc) < 400000000 div unat (width desc)"
    using lt cap_check[OF w0] by simp
  then have "Suc (unat (height desc)) \<le> 400000000 div unat (width desc)" by simp
  then have "Suc (unat (height desc)) * unat (width desc) \<le> 400000000"
    using w by (simp add: less_eq_div_iff_mult_less_eq)
  then show "npx desc < 400000000" using w by (simp add: npx_def mult.commute)
  show c: "channels desc = 3 \<or> channels desc = 4" using v by (auto simp: enc_invalid_def)
  then show "unat (channels desc) = 3 \<or> unat (channels desc) = 4" by auto
  show "colorspace desc \<le> 1" using v by (auto simp: enc_invalid_def)
qed

lemma word_mult_of_nat:
  "width desc * height desc = (of_nat (npx desc) :: u32)"
  by (simp add: npx_def)

lemma enc_px_len_eq:
  "enc_px_len desc = of_nat (npx desc * unat (channels desc))"
  by (simp add: enc_px_len_def npx_def)

lemma enc_px_end_eq:
  assumes "0 < npx desc"
  shows "enc_px_end desc = of_nat ((npx desc - 1) * unat (channels desc))"
proof -
  have "(npx desc - 1) * unat (channels desc) = npx desc * unat (channels desc) - unat (channels desc)"
    by (simp add: diff_mult_distrib)
  moreover have "unat (channels desc) \<le> npx desc * unat (channels desc)" using assms by simp
  ultimately have "(of_nat ((npx desc - 1) * unat (channels desc)) :: u32)
      = of_nat (npx desc * unat (channels desc)) - of_nat (unat (channels desc))"
    by (simp only: of_nat_diff)
  then show ?thesis by (simp add: enc_px_end_def enc_px_len_eq)
qed

lemma enc_size_eq:
  assumes v: "\<not> enc_invalid desc"
  shows "enc_size desc = npx desc * (unat (channels desc) + 1) + 22"
proof -
  note a = enc_valid_arith[OF v]
  have "npx desc * (unat (channels desc) + 1) \<le> npx desc * 5"
    using a(4) by (intro mult_le_mono2) auto
  then have "npx desc * (unat (channels desc) + 1) + 22 \<le> 2000000022" using a(2) by linarith
  then have b: "npx desc * (unat (channels desc) + 1) + 22 < 2 ^ 32" by simp
  have "width desc * height desc * (ucast (channels desc) + 1) + of_nat QOI_HEADER_SIZE + of_nat (length qoi_padding)
     = (of_nat (npx desc * (unat (channels desc) + 1) + 22) :: u32)"
    by (simp add: npx_def qoi_consts algebra_simps)
  then show ?thesis unfolding enc_size_def using b by (simp only: unat_of_nat_u32)
qed

lemma uint_lt_31: fixes x :: u32 assumes "unat x < 2 ^ 31" shows "uint x < 2 ^ 31"
proof -
  have "int (unat x) < int (2 ^ 31)" using assms by (rule iffD2[OF of_nat_less_iff])
  then show ?thesis by simp
qed

lemma uint_ge_m31: fixes x :: u32 shows "- (2 ^ 31) \<le> uint x"
proof -
  have "(0::int) \<le> uint x" by simp
  moreover have "- (2 ^ 31) \<le> (0::int)" by simp
  ultimately show ?thesis by (rule order_trans[rotated])
qed

lemma stb_uint_31: fixes x :: u32 assumes "unat x < 2 ^ 31" shows "signed_take_bit 31 (uint x) = uint x"
  using uint_lt_31[OF assms] uint_ge_m31[of x] by (rule signed_take_bit_int_eq_self[rotated])

lemma sint_small:
  fixes x :: u32
  assumes "unat x < 2 ^ 31"
  shows "sint x = int (unat x)"
proof -
  have "sint x = signed_take_bit (LENGTH(32) - Suc 0) (uint x)" by (rule sint_uint)
  also have "\<dots> = signed_take_bit 31 (uint x)" by simp
  also have "\<dots> = uint x" by (rule stb_uint_31[OF assms])
  finally show ?thesis by simp
qed

lemma enc_header_eq:
  assumes "14 \<le> sz"
  shows "enc_header sz desc = Some (enc_start desc)"
  using assms
  by (simp add: enc_header_def enc_start_def enc_init_def emit_def wr_def qoi_header_def qoi_write_32_def)

lemma enc_inv_start: "enc_inv chans (enc_start desc)"
  by (simp add: enc_inv_def enc_start_def enc_init_def px_start_def px_zero_def MEMORY_SIZE_def)

theorem qoi_encode_eq:
  assumes v: "\<not> enc_invalid desc" and m: "malloc (enc_size desc)"
    and len: "length data = npx desc * unat (channels desc)"
  shows "qoi_encode malloc data desc
     = Some (Inr (bytes (enc_final data desc) @ qoi_padding,
                  int (length (bytes (enc_final data desc)) + 8)))"
    and "length (bytes (enc_final data desc)) + 8 \<le> enc_size desc"
    and "run (enc_final data desc) = 0"
    and "enc_inv (channels desc) (enc_final data desc)"
proof -
  let ?n = "npx desc" and ?c = "channels desc"
  let ?sz = "enc_size desc"
  note a = enc_valid_arith[OF v]
  have sz: "?sz = ?n * (unat ?c + 1) + 22" by (rule enc_size_eq[OF v])
  have n5: "?n * (unat ?c + 1) \<le> ?n * 5" using a(4) by (intro mult_le_mono2) auto
  then have sz_le: "?sz \<le> 2000000022" using a(2) sz by linarith
  then have sz_small: "?sz + 5 < 2 ^ 32" by simp
  have B0: "length (bytes (enc_start desc)) + pend (enc_start desc) \<le> 14"
    by (simp add: enc_start_def pend_def enc_init_def)
  have szB: "14 + ?n * (unat ?c + 1) \<le> ?sz - 8" using sz by simp
  have sz8: "?sz - 8 + 5 < 2 ^ 32" using sz_small by simp
  have nc: "?n * unat ?c < 2 ^ 32"
  proof -
    have "?n * unat ?c \<le> ?n * 4" using a(4) by (intro mult_le_mono2) auto
    then have "?n * unat ?c \<le> 1600000000" using a(2) by linarith
    then show ?thesis by simp
  qed
  have dl: "?n * unat ?c \<le> length data" "length data < 2 ^ 32" using len nc by simp_all
  have small: "14 + ?n * (unat ?c + 1) + 5 < 2 ^ 32" using szB sz8 by linarith
  have c0: "0 < unat ?c" using a(4) by auto
  have loop: "enc_loop data ?sz ?c (enc_px_len desc) (enc_px_end desc) 0 (enc_start desc)
      = Some (enc_final data desc)"
  proof -
    have "enc_loop data ?sz ?c (of_nat (?n * unat ?c)) (enc_px_end desc) (of_nat (0 * unat ?c)) (enc_start desc)
       = iter (\<lambda>j. enc_body data ?sz ?c (enc_px_end desc) (of_nat (j * unat ?c))) 0 ?n (enc_start desc)"
      by (rule enc_loop_iter[OF c0 nc le0])
    also have "\<dots> = Some (enc_at data ?c (enc_px_end desc) (enc_start desc) ?n)"
    proof (rule enc_iter_eq[OF enc_inv_start a(3) B0 _ _ dl le_refl])
      show "14 + ?n * (unat ?c + 1) \<le> ?sz" using szB by simp
      show "?sz + 5 < 2 ^ 32" by (rule sz_small)
    qed
    finally show ?thesis by (simp add: enc_px_len_eq enc_final_def)
  qed
  have I: "enc_inv ?c (enc_final data desc)"
    and L: "length (bytes (enc_final data desc)) + pend (enc_final data desc) \<le> 14 + ?n * (unat ?c + 1)"
    using enc_at_inv[OF enc_inv_start a(3) B0 small le_refl, of data "enc_px_end desc"]
    by (simp_all add: enc_final_def)
  show "enc_inv ?c (enc_final data desc)" by (rule I)
  show L8: "length (bytes (enc_final data desc)) + 8 \<le> ?sz" using L sz by simp
  have n1: "?n - 1 < ?n" using a(1) by simp
  have "run (enc_at data ?c (enc_px_end desc) (enc_start desc) (Suc (?n - 1))) = 0"
    by (rule enc_at_fin[OF enc_inv_start a(3) B0 small n1 enc_px_end_eq[OF a(1)]])
  then show "run (enc_final data desc) = 0" using a(1) by (simp add: enc_final_def)
  have i: "unat (idx (enc_final data desc)) = length (bytes (enc_final data desc))"
    using I by (simp add: enc_inv_def)
  have pad: "emit ?sz qoi_padding (enc_final data desc)
     = Some ((enc_final data desc)\<lparr>bytes := bytes (enc_final data desc) @ qoi_padding,
                idx := idx (enc_final data desc) + 8\<rparr>)"
    using emit_eq[OF i, of qoi_padding ?sz] L8 by (simp add: qoi_padding_def)
  have "unat (idx (enc_final data desc)) + 8 \<le> 2000000022" 
    using i L8 sz_le by linarith
  then have u8: "unat (idx (enc_final data desc)) + 8 < 2 ^ 32"
    and u31: "unat (idx (enc_final data desc)) + 8 < 2 ^ 31" by simp_all
  have "unat (idx (enc_final data desc) + 8) = unat (idx (enc_final data desc)) + 8"
    using unat_plus_small[OF u8] by simp
  then have s: "sint (idx (enc_final data desc) + 8) = int (length (bytes (enc_final data desc)) + 8)"
    using sint_small[of "idx (enc_final data desc) + 8"] u31 i by simp
  have h14: "14 \<le> ?sz" using sz by simp
  show "qoi_encode malloc data desc
     = Some (Inr (bytes (enc_final data desc) @ qoi_padding,
                  int (length (bytes (enc_final data desc)) + 8)))"
    using v m by (simp add: qoi_encode_def enc_header_eq[OF h14] loop pad s)
qed

lemma m24: "(0xff000000 :: u32) = push_bit 24 (mask 8)" by (simp add: mask_eq_exp_minus_1)

lemma m16: "(0x00ff0000 :: u32) = push_bit 16 (mask 8)" by (simp add: mask_eq_exp_minus_1)

lemma m8: "(0x0000ff00 :: u32) = push_bit 8 (mask 8)" by (simp add: mask_eq_exp_minus_1)

lemma m0: "(0x000000ff :: u32) = mask 8" by (simp add: mask_eq_exp_minus_1)

lemma qoi_write_32_be:
  "qoi_write_32 v = [ucast (drop_bit 24 v), ucast (drop_bit 16 v), ucast (drop_bit 8 v), ucast v]"
  unfolding qoi_write_32_def m24 m16 m8 m0
  by (simp, intro conjI; rule bit_word_eqI; simp add: bit_simps; auto)

lemma read_write_32:
  "push_bit 24 (ucast (ucast (drop_bit 24 v) :: byte)) OR push_bit 16 (ucast (ucast (drop_bit 16 v) :: byte))
   OR push_bit 8 (ucast (ucast (drop_bit 8 v) :: byte)) OR ucast (ucast v :: byte) = (v :: u32)"
proof (rule bit_word_eqI)
  fix n assume n: "n < LENGTH(32)"
  consider "n < 8" | "8 \<le> n" "n < 16" | "16 \<le> n" "n < 24" | "24 \<le> n" "n < 32"
    using n by fastforce
  then show "bit (push_bit 24 (ucast (ucast (drop_bit 24 v) :: byte)) OR push_bit 16 (ucast (ucast (drop_bit 16 v) :: byte))
   OR push_bit 8 (ucast (ucast (drop_bit 8 v) :: byte)) OR ucast (ucast v :: byte) :: u32) n = bit v n"
    by cases (auto simp: bit_simps)
qed

lemma sint_range_cases:
  fixes d :: byte
  assumes "lo \<le> sint d" "sint d \<le> hi"
  shows "\<exists>k\<in>set [lo..hi]. d = word_of_int k"
proof -
  have "sint d \<in> set [lo..hi]" using assms by simp
  moreover have "d = word_of_int (sint d)" by simp
  ultimately show ?thesis by blast
qed

lemma diff_byte_all:
  "list_all (\<lambda>i. list_all (\<lambda>j. list_all (\<lambda>k.
     (let dr = word_of_int i :: byte; dg = word_of_int j :: byte; db = word_of_int k :: byte;
          b = QOI_OP_DIFF OR push_bit 4 (dr + 2) OR push_bit 2 (dg + 2) OR (db + 2)
      in b \<noteq> QOI_OP_RGBA \<and> b \<noteq> QOI_OP_RGB \<and> b AND QOI_OP_MASK \<noteq> QOI_OP_LUMA
         \<and> b AND QOI_OP_MASK = QOI_OP_DIFF
         \<and> (drop_bit 4 b AND 0x03) - 2 = dr \<and> (drop_bit 2 b AND 0x03) - 2 = dg \<and> (b AND 0x03) - 2 = db)) [-2..1]) [-2..1]) [-2..1]"
  by code_simp

lemma luma1_all:
  "list_all (\<lambda>j.
     (let dg = word_of_int j :: byte; b = QOI_OP_LUMA OR (dg + 32)
      in b \<noteq> QOI_OP_RGBA \<and> b \<noteq> QOI_OP_RGB \<and> b AND QOI_OP_MASK = QOI_OP_LUMA
         \<and> (b AND 0x3f) - 32 = dg)) [-32..31]"
  by code_simp

lemma luma2_all:
  "list_all (\<lambda>i. list_all (\<lambda>k.
     (let x = word_of_int i :: byte; y = word_of_int k :: byte; b = push_bit 4 (x + 8) OR (y + 8)
      in (drop_bit 4 b AND 0x0f) - 8 = x \<and> (b AND 0x0f) - 8 = y)) [-8..7]) [-8..7]"
  by code_simp

lemma run_all:
  "list_all (\<lambda>r.
     (let x = word_of_int r :: byte; b = QOI_OP_RUN OR x
      in b \<noteq> QOI_OP_RGBA \<and> b \<noteq> QOI_OP_RGB \<and> b AND QOI_OP_MASK \<noteq> QOI_OP_LUMA
         \<and> b AND QOI_OP_MASK \<noteq> QOI_OP_DIFF \<and> b AND QOI_OP_MASK \<noteq> QOI_OP_INDEX
         \<and> b AND QOI_OP_MASK = QOI_OP_RUN \<and> b AND QOI_RUN_MASK = x)) [0..61]"
  by code_simp

lemma index_all:
  "list_all (\<lambda>r.
     (let x = word_of_int r :: byte; b = QOI_OP_INDEX OR x
      in b \<noteq> QOI_OP_RGBA \<and> b \<noteq> QOI_OP_RGB \<and> b AND QOI_OP_MASK \<noteq> QOI_OP_LUMA
         \<and> b AND QOI_OP_MASK \<noteq> QOI_OP_DIFF \<and> b AND QOI_OP_MASK = QOI_OP_INDEX \<and> b = x)) [0..63]"
  by code_simp

lemma diff_byte:
  fixes dr dg db :: byte
  assumes "- 2 \<le> sint dr" "sint dr \<le> 1" "- 2 \<le> sint dg" "sint dg \<le> 1" "- 2 \<le> sint db" "sint db \<le> 1"
  defines "b \<equiv> QOI_OP_DIFF OR push_bit 4 (dr + 2) OR push_bit 2 (dg + 2) OR (db + 2)"
  shows "b \<noteq> QOI_OP_RGBA" "b \<noteq> QOI_OP_RGB" "b AND QOI_OP_MASK \<noteq> QOI_OP_LUMA"
    "b AND QOI_OP_MASK = QOI_OP_DIFF"
    "(drop_bit 4 b AND 0x03) - 2 = dr" "(drop_bit 2 b AND 0x03) - 2 = dg" "(b AND 0x03) - 2 = db"
proof -
  obtain i j k where "i \<in> set [-2..1]" "dr = word_of_int i" "j \<in> set [-2..1]" "dg = word_of_int j"
    "k \<in> set [-2..1]" "db = word_of_int k"
    using sint_range_cases[OF assms(1,2)] sint_range_cases[OF assms(3,4)] sint_range_cases[OF assms(5,6)]
    by blast
  then have "b \<noteq> QOI_OP_RGBA \<and> b \<noteq> QOI_OP_RGB \<and> b AND QOI_OP_MASK \<noteq> QOI_OP_LUMA
         \<and> b AND QOI_OP_MASK = QOI_OP_DIFF
         \<and> (drop_bit 4 b AND 0x03) - 2 = dr \<and> (drop_bit 2 b AND 0x03) - 2 = dg \<and> (b AND 0x03) - 2 = db"
    using diff_byte_all unfolding list_all_iff b_def Let_def by blast
  then show "b \<noteq> QOI_OP_RGBA" "b \<noteq> QOI_OP_RGB" "b AND QOI_OP_MASK \<noteq> QOI_OP_LUMA"
    "b AND QOI_OP_MASK = QOI_OP_DIFF"
    "(drop_bit 4 b AND 0x03) - 2 = dr" "(drop_bit 2 b AND 0x03) - 2 = dg" "(b AND 0x03) - 2 = db"
    by blast+
qed

lemma luma_byte1:
  fixes dg :: byte
  assumes "- 32 \<le> sint dg" "sint dg \<le> 31"
  defines "b \<equiv> QOI_OP_LUMA OR (dg + 32)"
  shows "b \<noteq> QOI_OP_RGBA" "b \<noteq> QOI_OP_RGB" "b AND QOI_OP_MASK = QOI_OP_LUMA" "(b AND 0x3f) - 32 = dg"
proof -
  obtain j where "j \<in> set [-32..31]" "dg = word_of_int j"
    using sint_range_cases[OF assms(1,2)] by blast
  then have "b \<noteq> QOI_OP_RGBA \<and> b \<noteq> QOI_OP_RGB \<and> b AND QOI_OP_MASK = QOI_OP_LUMA \<and> (b AND 0x3f) - 32 = dg"
    using luma1_all unfolding list_all_iff b_def Let_def by blast
  then show "b \<noteq> QOI_OP_RGBA" "b \<noteq> QOI_OP_RGB" "b AND QOI_OP_MASK = QOI_OP_LUMA" "(b AND 0x3f) - 32 = dg"
    by blast+
qed

lemma luma_byte2:
  fixes x y :: byte
  assumes "- 8 \<le> sint x" "sint x \<le> 7" "- 8 \<le> sint y" "sint y \<le> 7"
  defines "b \<equiv> push_bit 4 (x + 8) OR (y + 8)"
  shows "(drop_bit 4 b AND 0x0f) - 8 = x" "(b AND 0x0f) - 8 = y"
proof -
  obtain i k where "i \<in> set [-8..7]" "x = word_of_int i" "k \<in> set [-8..7]" "y = word_of_int k"
    using sint_range_cases[OF assms(1,2)] sint_range_cases[OF assms(3,4)] by blast
  then have "(drop_bit 4 b AND 0x0f) - 8 = x \<and> (b AND 0x0f) - 8 = y"
    using luma2_all unfolding list_all_iff b_def Let_def by blast
  then show "(drop_bit 4 b AND 0x0f) - 8 = x" "(b AND 0x0f) - 8 = y" by blast+
qed

lemma unat_range_cases:
  fixes x :: byte
  assumes "unat x \<le> hi"
  shows "\<exists>k\<in>set [0..int hi]. x = word_of_int k"
proof -
  have "int (unat x) \<le> int hi" using assms by (simp only: of_nat_le_iff)
  then have "uint x \<in> set [0..int hi]" by simp
  moreover have "x = word_of_int (uint x)" by simp
  ultimately show ?thesis by blast
qed

lemma run_byte:
  fixes x :: byte
  assumes "unat x \<le> 61"
  defines "b \<equiv> QOI_OP_RUN OR x"
  shows "b \<noteq> QOI_OP_RGBA" "b \<noteq> QOI_OP_RGB" "b AND QOI_OP_MASK \<noteq> QOI_OP_LUMA"
    "b AND QOI_OP_MASK \<noteq> QOI_OP_DIFF" "b AND QOI_OP_MASK \<noteq> QOI_OP_INDEX"
    "b AND QOI_OP_MASK = QOI_OP_RUN" "b AND QOI_RUN_MASK = x"
proof -
  obtain r where "r \<in> set [0..61]" "x = word_of_int r"
    using unat_range_cases[OF assms(1)] by auto
  then have "b \<noteq> QOI_OP_RGBA \<and> b \<noteq> QOI_OP_RGB \<and> b AND QOI_OP_MASK \<noteq> QOI_OP_LUMA
         \<and> b AND QOI_OP_MASK \<noteq> QOI_OP_DIFF \<and> b AND QOI_OP_MASK \<noteq> QOI_OP_INDEX
         \<and> b AND QOI_OP_MASK = QOI_OP_RUN \<and> b AND QOI_RUN_MASK = x"
    using run_all unfolding list_all_iff b_def Let_def by blast
  then show "b \<noteq> QOI_OP_RGBA" "b \<noteq> QOI_OP_RGB" "b AND QOI_OP_MASK \<noteq> QOI_OP_LUMA"
    "b AND QOI_OP_MASK \<noteq> QOI_OP_DIFF" "b AND QOI_OP_MASK \<noteq> QOI_OP_INDEX"
    "b AND QOI_OP_MASK = QOI_OP_RUN" "b AND QOI_RUN_MASK = x"
    by blast+
qed

lemma index_byte:
  fixes x :: byte
  assumes "unat x \<le> 63"
  defines "b \<equiv> QOI_OP_INDEX OR x"
  shows "b \<noteq> QOI_OP_RGBA" "b \<noteq> QOI_OP_RGB" "b AND QOI_OP_MASK \<noteq> QOI_OP_LUMA"
    "b AND QOI_OP_MASK \<noteq> QOI_OP_DIFF" "b AND QOI_OP_MASK = QOI_OP_INDEX" "b = x"
proof -
  obtain r where "r \<in> set [0..63]" "x = word_of_int r"
    using unat_range_cases[OF assms(1)] by auto
  then have "b \<noteq> QOI_OP_RGBA \<and> b \<noteq> QOI_OP_RGB \<and> b AND QOI_OP_MASK \<noteq> QOI_OP_LUMA
         \<and> b AND QOI_OP_MASK \<noteq> QOI_OP_DIFF \<and> b AND QOI_OP_MASK = QOI_OP_INDEX \<and> b = x"
    using index_all unfolding list_all_iff b_def Let_def by blast
  then show "b \<noteq> QOI_OP_RGBA" "b \<noteq> QOI_OP_RGB" "b AND QOI_OP_MASK \<noteq> QOI_OP_LUMA"
    "b AND QOI_OP_MASK \<noteq> QOI_OP_DIFF" "b AND QOI_OP_MASK = QOI_OP_INDEX" "b = x"
    by blast+
qed

lemma rd_at:
  fixes x :: u32
  assumes "unat x = i" "i + k < length F" "length F < 2 ^ 32"
  shows "rd F (x + of_nat k) = Some (F ! (i + k))"
proof -
  have "unat x + k < 2 ^ 32" using assms by linarith
  then have "unat (x + of_nat k) = i + k" using unat_plus_small[of x k] assms(1) by simp
  then show ?thesis using assms(2) by (simp add: rd_def)
qed

lemma rd_at0:
  fixes x :: u32
  assumes "unat x = i" "i < length F"
  shows "rd F x = Some (F ! i)"
  using assms by (simp add: rd_def)

lemma rd_at1:
  fixes x :: u32
  assumes "unat x = i" "i + 1 < length F" "length F < 2 ^ 32"
  shows "rd F (x + 1) = Some (F ! (i + 1))"
  using rd_at[OF assms(1), of 1 F] assms(2,3) by simp

lemma rd_at2:
  fixes x :: u32
  assumes "unat x = i" "i + 2 < length F" "length F < 2 ^ 32"
  shows "rd F (x + 2) = Some (F ! (i + 2))"
  using rd_at[OF assms(1), of 2 F] assms(2,3) by simp

lemma rd_at3:
  fixes x :: u32
  assumes "unat x = i" "i + 3 < length F" "length F < 2 ^ 32"
  shows "rd F (x + 3) = Some (F ! (i + 3))"
  using rd_at[OF assms(1), of 3 F] assms(2,3) by simp

lemma rd_at4:
  fixes x :: u32
  assumes "unat x = i" "i + 4 < length F" "length F < 2 ^ 32"
  shows "rd F (x + 4) = Some (F ! (i + 4))"
  using rd_at[OF assms(1), of 4 F] assms(2,3) by simp

lemma rgba_eta [simp]:
  "\<lparr>rgba_r = rgba_r c, rgba_g = rgba_g c, rgba_b = rgba_b c, rgba_a = rgba_a c\<rparr> = c"
  by (cases c) simp

lemma dec_op_run:
  assumes i: "unat (idx d) = i" and b: "i < length F" and F: "F ! i = QOI_OP_RUN OR x"
    and x: "unat x \<le> 61"
  shows "dec_op F d = Some (d\<lparr>idx := idx d + 1, run := x,
            mem := (mem d)[unat (qoi_hash (px_curr d)) := px_curr d]\<rparr>)"
  using run_byte[OF x] rd_at0[OF i b] F
  by (simp add: dec_op_def Let_def)

lemma dec_op_index:
  assumes i: "unat (idx d) = i" and b: "i < length F" and F: "F ! i = QOI_OP_INDEX OR h"
    and h: "unat h \<le> 63"
  shows "dec_op F d = Some (d\<lparr>idx := idx d + 1, px_curr := mem d ! unat h,
            mem := (mem d)[unat (qoi_hash (mem d ! unat h)) := mem d ! unat h]\<rparr>)"
  using index_byte[OF h] rd_at0[OF i b] F
  by (simp add: dec_op_def Let_def)

lemma dec_op_rgba:
  assumes i: "unat (idx d) = i" and b: "i + 4 < length F" and small: "length F < 2 ^ 32"
    and F: "F ! i = QOI_OP_RGBA" "F ! (i + 1) = vr" "F ! (i + 2) = vg" "F ! (i + 3) = vb" "F ! (i + 4) = va"
    and c: "c = \<lparr>rgba_r = vr, rgba_g = vg, rgba_b = vb, rgba_a = va\<rparr>"
  shows "dec_op F d = Some (d\<lparr>idx := idx d + 5, px_curr := c,
            mem := (mem d)[unat (qoi_hash c) := c]\<rparr>)"
proof -
  have i0: "i < length F" using b by simp
  have "rd F (idx d) = Some QOI_OP_RGBA" "rd F (idx d + 1) = Some vr"
    "rd F (idx d + 2) = Some vg" "rd F (idx d + 3) = Some vb" "rd F (idx d + 4) = Some va"
    using rd_at0[OF i i0] rd_at1[OF i _ small] rd_at2[OF i _ small] rd_at3[OF i _ small]
      rd_at4[OF i b small] b F by simp_all
  then show ?thesis
    unfolding c by (simp add: dec_op_def Let_def add.assoc)
qed

lemma dec_op_rgb:
  assumes i: "unat (idx d) = i" and b: "i + 3 < length F" and small: "length F < 2 ^ 32"
    and F: "F ! i = QOI_OP_RGB" "F ! (i + 1) = vr" "F ! (i + 2) = vg" "F ! (i + 3) = vb"
    and c: "c = (px_curr d)\<lparr>rgba_r := vr, rgba_g := vg, rgba_b := vb\<rparr>"
  shows "dec_op F d = Some (d\<lparr>idx := idx d + 4, px_curr := c,
            mem := (mem d)[unat (qoi_hash c) := c]\<rparr>)"
proof -
  have i0: "i < length F" using b by simp
  have "rd F (idx d) = Some QOI_OP_RGB" "rd F (idx d + 1) = Some vr"
    "rd F (idx d + 2) = Some vg" "rd F (idx d + 3) = Some vb"
    using rd_at0[OF i i0] rd_at1[OF i _ small] rd_at2[OF i _ small] rd_at3[OF i b small] b F
    by simp_all
  then show ?thesis
    unfolding c by (simp add: dec_op_def Let_def add.assoc QOI_OP_RGB_def QOI_OP_RGBA_def)
qed

lemma dec_op_diff:
  assumes i: "unat (idx d) = i" and b: "i < length F"
    and F: "F ! i = B"
    and B: "B \<noteq> QOI_OP_RGBA" "B \<noteq> QOI_OP_RGB" "B AND QOI_OP_MASK \<noteq> QOI_OP_LUMA"
      "B AND QOI_OP_MASK = QOI_OP_DIFF"
    and c: "c = (px_curr d)\<lparr>rgba_r := rgba_r (px_curr d) + ((drop_bit 4 B AND 0x03) - 2),
                             rgba_g := rgba_g (px_curr d) + ((drop_bit 2 B AND 0x03) - 2),
                             rgba_b := rgba_b (px_curr d) + ((B AND 0x03) - 2)\<rparr>"
  shows "dec_op F d = Some (d\<lparr>idx := idx d + 1, px_curr := c,
            mem := (mem d)[unat (qoi_hash c) := c]\<rparr>)"
proof -
  have "rd F (idx d) = Some B" using rd_at0[OF i b] F by simp
  then show ?thesis
    unfolding c using B by (simp add: dec_op_def Let_def)
qed

lemma dec_op_luma:
  assumes i: "unat (idx d) = i" and b: "i + 1 < length F" and small: "length F < 2 ^ 32"
    and F: "F ! i = B1" "F ! (i + 1) = B2"
    and B: "B1 \<noteq> QOI_OP_RGBA" "B1 \<noteq> QOI_OP_RGB" "B1 AND QOI_OP_MASK = QOI_OP_LUMA"
    and c: "c = (px_curr d)\<lparr>rgba_r := rgba_r (px_curr d) + ((B1 AND 0x3f) - 32 + (drop_bit 4 B2 AND 0x0f) - 8),
                             rgba_g := rgba_g (px_curr d) + ((B1 AND 0x3f) - 32),
                             rgba_b := rgba_b (px_curr d) + ((B1 AND 0x3f) - 32 + (B2 AND 0x0f) - 8)\<rparr>"
  shows "dec_op F d = Some (d\<lparr>idx := idx d + 2, px_curr := c,
            mem := (mem d)[unat (qoi_hash c) := c]\<rparr>)"
proof -
  have i0: "i < length F" using b by simp
  have "rd F (idx d) = Some B1" "rd F (idx d + 1) = Some B2"
    using rd_at0[OF i i0] rd_at1[OF i b small] F by simp_all
  then show ?thesis
    unfolding c using B by (simp add: dec_op_def Let_def add.assoc)
qed

lemma dec_op_chunk:
  assumes i: "unat (idx d) = i" and b: "i + length (enc_chunk p c) \<le> length F"
    and small: "length F < 2 ^ 32"
    and F: "\<And>j. j < length (enc_chunk p c) \<Longrightarrow> F ! (i + j) = enc_chunk p c ! j"
    and p: "px_curr d = p"
  shows "dec_op F d = Some (d\<lparr>idx := idx d + of_nat (length (enc_chunk p c)), px_curr := c,
            mem := (mem d)[unat (qoi_hash c) := c]\<rparr>)"
proof (cases "rgba_a c = rgba_a p")
  case False
  then have ch: "enc_chunk p c = [QOI_OP_RGBA, rgba_r c, rgba_g c, rgba_b c, rgba_a c]"
    by (simp add: enc_chunk_def)
  have l: "i + 4 < length F" using b ch by simp
  have Fs: "F ! i = QOI_OP_RGBA" "F ! (i + 1) = rgba_r c" "F ! (i + 2) = rgba_g c"
    "F ! (i + 3) = rgba_b c" "F ! (i + 4) = rgba_a c"
    using F[of 0] F[of 1] F[of 2] F[of 3] F[of 4] ch by simp_all
  have "dec_op F d = Some (d\<lparr>idx := idx d + 5, px_curr := c,
            mem := (mem d)[unat (qoi_hash c) := c]\<rparr>)"
    by (rule dec_op_rgba[OF i l small Fs]) simp
  then show ?thesis by (simp add: ch)
next
  case a: True
  define dr where "dr = rgba_r c - rgba_r p"
  define dg where "dg = rgba_g c - rgba_g p"
  define db where "db = rgba_b c - rgba_b p"
  have cp: "c = p\<lparr>rgba_r := rgba_r p + dr, rgba_g := rgba_g p + dg, rgba_b := rgba_b p + db\<rparr>"
    using a by (cases c; cases p) (simp add: dr_def dg_def db_def)
  show ?thesis
  proof (cases "(- 2 \<le> sint dr \<and> sint dr \<le> 1) \<and> (- 2 \<le> sint dg \<and> sint dg \<le> 1)
              \<and> (- 2 \<le> sint db \<and> sint db \<le> 1)")
    case True
    then have t: "- 2 \<le> sint dr" "sint dr \<le> 1" "- 2 \<le> sint dg" "sint dg \<le> 1"
      "- 2 \<le> sint db" "sint db \<le> 1" by simp_all
    define B where "B = QOI_OP_DIFF OR push_bit 4 (dr + 2) OR push_bit 2 (dg + 2) OR (db + 2)"
    have ch: "enc_chunk p c = [B]"
      using a True unfolding dr_def dg_def db_def B_def by (simp add: enc_chunk_def Let_def)
    have F0: "F ! i = B" using F[of 0] ch by simp
    have l: "i < length F" using b ch by simp
    note DB = diff_byte[OF t, folded B_def]
    have "c = (px_curr d)\<lparr>rgba_r := rgba_r (px_curr d) + ((drop_bit 4 B AND 0x03) - 2),
                             rgba_g := rgba_g (px_curr d) + ((drop_bit 2 B AND 0x03) - 2),
                             rgba_b := rgba_b (px_curr d) + ((B AND 0x03) - 2)\<rparr>"
      unfolding DB(5,6,7) p by (rule cp)
    then have "dec_op F d = Some (d\<lparr>idx := idx d + 1, px_curr := c,
            mem := (mem d)[unat (qoi_hash c) := c]\<rparr>)"
      by (rule dec_op_diff[OF i l F0 DB(1,2,3,4)])
    then show ?thesis by (simp add: ch)
  next
    case nodiff: False
    define x where "x = dr - dg"
    define y where "y = db - dg"
    show ?thesis
    proof (cases "(- 32 \<le> sint dg \<and> sint dg \<le> 31) \<and> (- 8 \<le> sint x \<and> sint x \<le> 7)
                \<and> (- 8 \<le> sint y \<and> sint y \<le> 7)")
      case True
      then have t1: "- 32 \<le> sint dg" "sint dg \<le> 31"
        and t2: "- 8 \<le> sint x" "sint x \<le> 7" "- 8 \<le> sint y" "sint y \<le> 7" by simp_all
      define B1 where "B1 = QOI_OP_LUMA OR (dg + 32)"
      define B2 where "B2 = push_bit 4 (x + 8) OR (y + 8)"
      have ch: "enc_chunk p c = [B1, B2]"
        using a nodiff True unfolding dr_def dg_def db_def B1_def B2_def x_def y_def
        by (simp add: enc_chunk_def Let_def)
      have Fs: "F ! i = B1" "F ! (i + 1) = B2" using F[of 0] F[of 1] ch by simp_all
      have l: "i + 1 < length F" using b ch by simp
      note L1 = luma_byte1[OF t1, folded B1_def]
      note L2 = luma_byte2[OF t2, folded B2_def]
      have e1: "dg + (drop_bit 4 B2 AND 0x0f) - 8 = dr"
      proof -
        have "dg + (drop_bit 4 B2 AND 0x0f) - 8 = dg + ((drop_bit 4 B2 AND 0x0f) - 8)" by simp
        also have "\<dots> = dg + x" by (simp only: L2(1))
        also have "\<dots> = dr" by (simp add: x_def)
        finally show ?thesis .
      qed
      have e2: "dg + (B2 AND 0x0f) - 8 = db"
      proof -
        have "dg + (B2 AND 0x0f) - 8 = dg + ((B2 AND 0x0f) - 8)" by simp
        also have "\<dots> = dg + y" by (simp only: L2(2))
        also have "\<dots> = db" by (simp add: y_def)
        finally show ?thesis .
      qed
      have "c = (px_curr d)\<lparr>rgba_r := rgba_r (px_curr d) + ((B1 AND 0x3f) - 32 + (drop_bit 4 B2 AND 0x0f) - 8),
                             rgba_g := rgba_g (px_curr d) + ((B1 AND 0x3f) - 32),
                             rgba_b := rgba_b (px_curr d) + ((B1 AND 0x3f) - 32 + (B2 AND 0x0f) - 8)\<rparr>"
        unfolding L1(4) e1 e2 p by (rule cp)
      then have "dec_op F d = Some (d\<lparr>idx := idx d + 2, px_curr := c,
            mem := (mem d)[unat (qoi_hash c) := c]\<rparr>)"
        by (rule dec_op_luma[OF i l small Fs L1(1,2,3)])
      then show ?thesis by (simp add: ch)
    next
      case False
      then have ch: "enc_chunk p c = [QOI_OP_RGB, rgba_r c, rgba_g c, rgba_b c]"
        using a nodiff unfolding dr_def dg_def db_def x_def y_def
        by (simp add: enc_chunk_def Let_def)
      have l: "i + 3 < length F" using b ch by simp
      have Fs: "F ! i = QOI_OP_RGB" "F ! (i + 1) = rgba_r c" "F ! (i + 2) = rgba_g c"
        "F ! (i + 3) = rgba_b c"
        using F[of 0] F[of 1] F[of 2] F[of 3] ch by simp_all
      have c': "c = p\<lparr>rgba_r := rgba_r c, rgba_g := rgba_g c, rgba_b := rgba_b c\<rparr>"
        using a by (cases c; cases p) simp
      have "c = (px_curr d)\<lparr>rgba_r := rgba_r c, rgba_g := rgba_g c, rgba_b := rgba_b c\<rparr>"
        unfolding p by (rule c')
      then have "dec_op F d = Some (d\<lparr>idx := idx d + 4, px_curr := c,
            mem := (mem d)[unat (qoi_hash c) := c]\<rparr>)"
        by (rule dec_op_rgb[OF i l small Fs])
      then show ?thesis by (simp add: ch)
    qed
  qed
qed

lemma hash_px_zero: "unat (qoi_hash px_zero) = 0"
  by (simp add: qoi_hash_def px_zero_def)

lemma hash_px_start: "unat (qoi_hash px_start) = 53"
  by (simp add: qoi_hash_def px_start_def MEMORY_SIZE_def)

lemma coh_refl: "coh E E"
  by (simp add: coh_def)

lemma coh_update:
  assumes c: "coh E D" and l: "length E = 64" "length D = 64"
  shows "coh (E[i := c]) (D[i := c])"
  unfolding coh_def
proof (intro allI impI)
  fix j :: nat assume j: "j < 64"
  note cj = c[unfolded coh_def, rule_format, OF j]
  show "D[i := c] ! j = E[i := c] ! j \<or> (j = 53 \<and> E[i := c] ! j = px_zero \<and> D[i := c] ! j = px_start)"
  proof (cases "j = i")
    case True
    then show ?thesis using j l by simp
  next
    case False
    then show ?thesis using cj by simp
  qed
qed

lemma coh_hit:
  assumes "coh E D" and "E ! unat (qoi_hash c) = c"
  shows "D ! unat (qoi_hash c) = c"
proof -
  have "D ! unat (qoi_hash c) = E ! unat (qoi_hash c)
      \<or> (unat (qoi_hash c) = 53 \<and> E ! unat (qoi_hash c) = px_zero \<and> D ! unat (qoi_hash c) = px_start)"
    using assms(1) qoi_hash_less[of c] by (simp add: coh_def)
  then show ?thesis
  proof
    assume "D ! unat (qoi_hash c) = E ! unat (qoi_hash c)"
    then show ?thesis using assms(2) by simp
  next
    assume x: "unat (qoi_hash c) = 53 \<and> E ! unat (qoi_hash c) = px_zero \<and> D ! unat (qoi_hash c) = px_start"
    then have "E ! unat (qoi_hash c) = px_zero" by blast
    then have "c = px_zero" using assms(2) by simp
    then have "unat (qoi_hash c) = 0" using hash_px_zero by simp
    then show ?thesis using x by simp
  qed
qed

lemma coh_run:
  assumes c: "coh E D" and l: "length D = 64"
    and J: "E ! unat (qoi_hash p) = p \<or> (p = px_start \<and> E ! 53 = px_zero)"
  shows "coh E (D[unat (qoi_hash p) := p])"
  using J
proof
  assume "E ! unat (qoi_hash p) = p"
  then have "D ! unat (qoi_hash p) = p" by (rule coh_hit[OF c])
  then have "D[unat (qoi_hash p) := p] = D" by (metis list_update_id)
  then show ?thesis using c by simp
next
  assume a: "p = px_start \<and> E ! 53 = px_zero"
  show ?thesis
    unfolding coh_def
  proof (intro allI impI)
    fix i :: nat assume i: "i < 64"
    show "D[unat (qoi_hash p) := p] ! i = E ! i \<or>
          (i = 53 \<and> E ! i = px_zero \<and> D[unat (qoi_hash p) := p] ! i = px_start)"
    proof (cases "i = 53")
      case True
      then show ?thesis using a l hash_px_start by simp
    next
      case False
      then have "D[unat (qoi_hash p) := p] ! i = D ! i" using a hash_px_start by simp
      then show ?thesis using c[unfolded coh_def, rule_format, OF i] False by simp
    qed
  qed
qed

lemma take_pixel:
  assumes ch: "chans = 3 \<or> chans = (4 :: byte)" and l: "(k + 1) * unat chans \<le> length data"
  shows "take ((k + 1) * unat chans) data
       = take (k * unat chans) data @ px_out (uint chans) (pix data chans k cur)"
proof -
  have t: "i < length data \<Longrightarrow> take (Suc i) data = take i data @ [data ! i]" for i
    by (rule take_Suc_conv_app_nth)
  show ?thesis
  proof (cases "chans = 4")
    case True
    then have u: "unat chans = 4" "uint chans = 4" by simp_all
    have l4: "k * 4 + 3 < length data" using l u by simp
    have e: "(k + 1) * 4 = Suc (Suc (Suc (Suc (k * 4))))" by simp
    have "take (Suc (Suc (Suc (Suc (k * 4))))) data
        = take (k * 4) data @ [data ! (k * 4), data ! (k * 4 + 1), data ! (k * 4 + 2), data ! (k * 4 + 3)]"
      using t[of "k * 4"] t[of "Suc (k * 4)"] t[of "Suc (Suc (k * 4))"] t[of "Suc (Suc (Suc (k * 4)))"] l4
      by (simp add: eval_nat_numeral)
    then show ?thesis unfolding u e using True by (simp add: px_out_def pix_def)
  next
    case False
    then have c3: "chans = 3" using ch by simp
    then have u: "unat chans = 3" "uint chans = 3" by simp_all
    have l3: "k * 3 + 2 < length data" using l u by simp
    have e: "(k + 1) * 3 = Suc (Suc (Suc (k * 3)))" by simp
    have "take (Suc (Suc (Suc (k * 3)))) data
        = take (k * 3) data @ [data ! (k * 3), data ! (k * 3 + 1), data ! (k * 3 + 2)]"
      using t[of "k * 3"] t[of "Suc (k * 3)"] t[of "Suc (Suc (k * 3))"] l3
      by (simp add: eval_nat_numeral)
    then show ?thesis unfolding u e using c3 by (simp add: px_out_def pix_def)
  qed
qed

lemma setup_inv:
  assumes "enc_setup data chans px_end s0 n" and "k \<le> n"
  shows "enc_inv chans (enc_at data chans px_end s0 k)"
    and "length (bytes (enc_at data chans px_end s0 k)) + pend (enc_at data chans px_end s0 k)
           \<le> length (bytes s0) + k * (unat chans + 1)"
proof -
  have ch: "chans = 3 \<or> chans = 4" and inv0: "enc_inv chans s0" and r0: "run s0 = 0"
    and small: "length (bytes s0) + n * (unat chans + 1) + 13 < 2 ^ 32"
    using assms(1) by (simp_all add: enc_setup_def)
  have B0: "length (bytes s0) + pend s0 \<le> length (bytes s0)" using r0 by (simp add: pend_def)
  have sm: "length (bytes s0) + n * (unat chans + 1) + 5 < 2 ^ 32" using small by linarith
  show "enc_inv chans (enc_at data chans px_end s0 k)"
    and "length (bytes (enc_at data chans px_end s0 k)) + pend (enc_at data chans px_end s0 k)
           \<le> length (bytes s0) + k * (unat chans + 1)"
    using enc_at_inv[OF inv0 ch B0 sm assms(2), of data px_end] by blast+
qed

lemma setup_run_end:
  assumes "enc_setup data chans px_end s0 n"
  shows "run (enc_at data chans px_end s0 n) = 0"
proof -
  have ch: "chans = 3 \<or> chans = 4" and inv0: "enc_inv chans s0" and r0: "run s0 = 0"
    and small: "length (bytes s0) + n * (unat chans + 1) + 13 < 2 ^ 32"
    and n: "0 < n" and e: "px_end = of_nat ((n - 1) * unat chans)"
    using assms(1) by (simp_all add: enc_setup_def)
  have B0: "length (bytes s0) + pend s0 \<le> length (bytes s0)" using r0 by (simp add: pend_def)
  have sm: "length (bytes s0) + n * (unat chans + 1) + 5 < 2 ^ 32" using small by linarith
  have n1: "n - 1 < n" using n by simp
  have "run (enc_at data chans px_end s0 (Suc (n - 1))) = 0"
    by (rule enc_at_fin[OF inv0 ch B0 sm n1 e])
  then show ?thesis using n by simp
qed

lemma setup_bytes_bound:
  assumes "enc_setup data chans px_end s0 n" and "k \<le> n"
  shows "length (bytes (enc_at data chans px_end s0 k)) + 13 < 2 ^ 32"
proof -
  have small: "length (bytes s0) + n * (unat chans + 1) + 13 < 2 ^ 32"
    using assms(1) by (simp add: enc_setup_def)
  have "k * (unat chans + 1) \<le> n * (unat chans + 1)" using assms(2) by (intro mult_le_mono1)
  then show ?thesis using setup_inv(2)[OF assms] small by linarith
qed

lemma byte_pred:
  fixes r :: byte
  assumes "r \<noteq> 0"
  shows "unat (r - 1) + 1 = unat r"
  using assms by (metis Suc_eq_plus1 Suc_pred' unat_gt_0 unat_minus_one)

lemma enc_future_run:
  assumes su: "enc_setup data chans px_end s0 n"
  shows "k \<le> n \<Longrightarrow> run (enc_at data chans px_end s0 k) \<noteq> 0 \<Longrightarrow>
    \<exists>x rest. bytes (enc_at data chans px_end s0 n)
                 = bytes (enc_at data chans px_end s0 k) @ (QOI_OP_RUN OR x) # rest
             \<and> unat (run (enc_at data chans px_end s0 k)) \<le> unat x + 1 \<and> unat x \<le> 61"
proof (induction "n - k" arbitrary: k)
  case 0
  then have "k = n" by simp
  then show ?case using setup_run_end[OF su] 0 by simp
next
  case (Suc m)
  let ?s = "enc_at data chans px_end s0 k"
  let ?s' = "enc_at data chans px_end s0 (Suc k)"
  let ?sn = "enc_at data chans px_end s0 n"
  let ?fin = "of_nat (k * unat chans) = px_end"
  let ?c = "pix data chans k (px_curr ?s)"
  have kn: "Suc k \<le> n" using Suc.hyps(2) by simp
  have s': "?s' = enc_next ?fin ?c ?s" by (simp add: Let_def)
  have inv: "enc_inv chans ?s" using setup_inv(1)[OF su Suc.prems(1)] .
  then have r61: "unat (run ?s) \<le> 61" by (simp add: enc_inv_def)
  obtain rest where rest: "bytes ?sn = bytes ?s' @ rest"
    using enc_at_bytes_prefix[OF kn, of data chans px_end s0] by blast
  have r0: "run ?s \<noteq> 0" using Suc.prems(2) .
  show ?case
  proof (cases "?c = px_prev ?s")
    case True
    show ?thesis
    proof (cases "run ?s + 1 = QOI_MAXIMUM_RUN \<or> ?fin")
      case flush: True
      then have "bytes ?s' = bytes ?s @ [QOI_OP_RUN OR run ?s]"
        using True unfolding s' by (simp add: enc_next_def enc_out_def)
      then have "bytes ?sn = bytes ?s @ (QOI_OP_RUN OR run ?s) # rest" using rest by simp
      then show ?thesis using r61 by auto
    next
      case noflush: False
      then have b: "bytes ?s' = bytes ?s" and r': "run ?s' = run ?s + 1"
        using True unfolding s' by (simp_all add: enc_next_def enc_out_def)
      have r'0: "run ?s' \<noteq> 0" using run_succ(3)[OF r61] r' by simp
      have "m = n - Suc k" using Suc.hyps(2) by simp
      from Suc.hyps(1)[OF this kn r'0]
      obtain x rest' where x: "bytes ?sn = bytes ?s' @ (QOI_OP_RUN OR x) # rest'"
        "unat (run ?s') \<le> unat x + 1" "unat x \<le> 61" by blast
      have "unat (run ?s) \<le> unat x + 1" using x(2) r' run_succ(1)[OF r61] by simp
      then show ?thesis using x(1,3) b by auto
    qed
  next
    case False
    then obtain body where "bytes ?s' = bytes ?s @ (QOI_OP_RUN OR (run ?s - 1)) # body"
      using r0 unfolding s' by (simp add: enc_next_def enc_out_def word_gt_0)
    then have "bytes ?sn = bytes ?s @ (QOI_OP_RUN OR (run ?s - 1)) # (body @ rest)"
      using rest by simp
    moreover have "unat (run ?s) \<le> unat (run ?s - 1) + 1" using byte_pred[OF r0] by simp
    moreover have "unat (run ?s - 1) \<le> 61" using byte_pred[OF r0] r61 by linarith
    ultimately show ?thesis by blast
  qed
qed

lemma run_or_inj:
  fixes x y :: byte
  assumes "QOI_OP_RUN OR x = QOI_OP_RUN OR y" "unat x \<le> 61" "unat y \<le> 61"
  shows "x = y"
proof -
  have "x = (QOI_OP_RUN OR x) AND QOI_RUN_MASK" by (rule run_byte(7)[OF assms(2), symmetric])
  also have "\<dots> = (QOI_OP_RUN OR y) AND QOI_RUN_MASK" by (simp only: assms(1))
  also have "\<dots> = y" by (rule run_byte(7)[OF assms(3)])
  finally show ?thesis .
qed

lemma unat_byte_1: "unat (b :: byte) = 1 \<Longrightarrow> b = 1"
  using word_unat_eq_iff[of b 1] by simp

lemma unat_byte_0: "unat (b :: byte) = 0 \<Longrightarrow> b = 0"
  using word_unat_eq_iff[of b 0] by simp

declare enc_at.simps [simp del]

lemma sim_idx_cong:
  "idx d1 = idx d2 \<Longrightarrow> run d1 = run d2 \<Longrightarrow> sim_idx F s d1 = sim_idx F s d2"
  by (simp add: sim_idx_def)

lemma sim_fetch:
  assumes su: "enc_setup data chans px_end s0 n" and kn: "k < n"
    and F: "F = bytes (enc_at data chans px_end s0 n) @ pad"
    and pc: "px_chunks = of_nat (length (bytes (enc_at data chans px_end s0 n)))"
    and lenF: "length F < 2 ^ 32"
    and R: "sim_rel F (enc_at data chans px_end s0 k) d"
  shows "\<exists>d1. dec_step F px_chunks d = Some d1 \<and> px d1 = px d
           \<and> sim_rel F (enc_at data chans px_end s0 (Suc k)) d1"
proof -
  let ?s = "enc_at data chans px_end s0 k"
  let ?s' = "enc_at data chans px_end s0 (Suc k)"
  let ?sn = "enc_at data chans px_end s0 n"
  define fin where "fin \<longleftrightarrow> of_nat (k * unat chans) = px_end"
  define c where "c = pix data chans k (px_curr ?s)"
  let ?L = "length (bytes ?s)"
  let ?Ln = "length (bytes ?sn)"
  let ?out = "enc_out fin c ?s"
  have k1: "Suc k \<le> n" and k0: "k \<le> n" using kn by simp_all
  have s': "?s' = enc_next fin c ?s" by (simp add: enc_at.simps Let_def fin_def c_def)
  have inv: "enc_inv chans ?s" by (rule setup_inv(1)[OF su k0])
  have inv': "enc_inv chans ?s'" by (rule setup_inv(1)[OF su k1])
  have r61: "unat (run ?s) \<le> 61" and i_s: "unat (idx ?s) = ?L" and pp: "px_prev ?s = px_curr ?s"
    and lm: "length (mem ?s) = 64"
    and J: "mem ?s ! unat (qoi_hash (px_prev ?s)) = px_prev ?s
        \<or> (px_prev ?s = px_start \<and> mem ?s ! 53 = px_zero)"
    using inv by (auto simp: enc_inv_def)
  have i_s': "unat (idx ?s') = length (bytes ?s')" using inv' by (simp add: enc_inv_def)
  have bs': "bytes ?s' = bytes ?s @ ?out" unfolding s' by (simp add: enc_next_def)
  obtain rest where rest: "bytes ?sn = bytes ?s' @ rest"
    using enc_at_bytes_prefix[OF k1, of data chans px_end s0] by blast
  have Fapp: "F = bytes ?s @ ?out @ rest @ pad" using F rest bs' by simp
  have F_at: "F ! (?L + j) = ?out ! j" if "j < length ?out" for j
    unfolding Fapp using that by (simp add: nth_append)
  have Ln_le: "length (bytes ?s') \<le> ?Ln" using rest by simp
  have LnF: "?Ln \<le> length F" using F by simp
  then have Ln32: "?Ln < 2 ^ 32" using lenF by linarith
  have upc: "unat px_chunks = ?Ln" unfolding pc by (rule unat_of_nat_u32[OF Ln32])
  have lt_chunks: "idx d < px_chunks" if "unat (idx d) < ?Ln"
    using that upc by (simp add: word_less_nat_alt)
  have cd: "px_curr d = px_curr ?s" and lmd: "length (mem d) = 64" and co: "coh (mem ?s) (mem d)"
    and si: "sim_idx F ?s d"
    using R by (simp_all add: sim_rel_def)
  have pd: "px_prev ?s = px_curr d" using pp cd by simp
  have Jd: "mem ?s ! unat (qoi_hash (px_curr d)) = px_curr d
        \<or> (px_curr d = px_start \<and> mem ?s ! 53 = px_zero)"
    using J pd by simp
  have c': "px_curr ?s' = c" unfolding s' by (simp add: enc_next_def)
  show ?thesis
  proof (cases "c = px_prev ?s")
    case True
    have mem': "mem ?s' = mem ?s" unfolding s' using True by (simp add: enc_next_def)
    have cc: "px_curr ?s' = px_curr d" using c' True pd by simp
    have run_dec: "\<exists>d1. dec_step F px_chunks d = Some d1 \<and> px d1 = px d \<and> sim_rel F ?s' d1"
      if ud: "unat (idx d) = ?L" and rd0: "run d = 0" and x: "F ! ?L = QOI_OP_RUN OR x" "unat x \<le> 61"
        and lt: "?L < ?Ln" and si': "sim_idx F ?s' (d\<lparr>idx := idx d + 1, run := x\<rparr>)" for x
    proof -
      have LF: "?L < length F" using lt LnF by linarith
      define d1 where "d1 = d\<lparr>idx := idx d + 1, run := x,
            mem := (mem d)[unat (qoi_hash (px_curr d)) := px_curr d]\<rparr>"
      have op: "dec_op F d = Some d1"
        unfolding d1_def by (rule dec_op_run[OF ud LF x])
      have ltc: "idx d < px_chunks" by (rule lt_chunks) (simp add: ud lt)
      have step: "dec_step F px_chunks d = Some d1"
        using rd0 ltc op by (simp add: dec_step_def)
      have co1: "coh (mem ?s') (mem d1)"
        unfolding mem' d1_def using coh_run[OF co lmd Jd] by simp
      have si1: "sim_idx F ?s' d1"
        using si' sim_idx_cong[of d1 "d\<lparr>idx := idx d + 1, run := x\<rparr>" F ?s'] by (simp add: d1_def)
      have "sim_rel F ?s' d1"
        unfolding sim_rel_def using co1 si1 cc lmd by (simp add: d1_def)
      then show ?thesis using step by (auto simp: d1_def)
    qed
    have rep_dec: "\<exists>d1. dec_step F px_chunks d = Some d1 \<and> px d1 = px d \<and> sim_rel F ?s' d1"
      if rdp: "0 < unat (run d)" and si': "sim_idx F ?s' (d\<lparr>run := run d - 1\<rparr>)"
    proof -
      have rdg: "run d > 0" using rdp by (simp add: word_less_nat_alt)
      define d1 where "d1 = d\<lparr>run := run d - 1\<rparr>"
      have step: "dec_step F px_chunks d = Some d1"
        using rdg by (simp add: dec_step_def d1_def)
      have "sim_rel F ?s' d1"
        unfolding sim_rel_def using co si' cc lmd mem' by (simp add: d1_def)
      then show ?thesis using step by (auto simp: d1_def)
    qed
    show ?thesis
    proof (cases "run ?s = 0")
      case r0: True
      then have id: "idx d = idx ?s" and rd0: "run d = 0" using si by (simp_all add: sim_idx_def)
      have ud: "unat (idx d) = ?L" using id i_s by simp
      have L1: "?L + 1 < 2 ^ 32" using setup_bytes_bound[OF su k0] by linarith
      have ud1: "unat (idx d + 1) = ?L + 1" using unat_plus_1[of "idx d"] ud L1 by simp
      show ?thesis
      proof (cases "run ?s + 1 = QOI_MAXIMUM_RUN \<or> fin")
        case flush: True
        then have out: "?out = [QOI_OP_RUN OR 0]" using True r0 by (simp add: enc_out_def)
        have "F ! (?L + 0) = ?out ! 0" by (rule F_at) (simp add: out)
        then have f: "F ! ?L = QOI_OP_RUN OR 0" using out by simp
        have r': "run ?s' = 0" and i': "idx ?s' = idx ?s + 1"
          unfolding s' using True flush out by (simp_all add: enc_next_def)
        have lt: "?L < ?Ln" using Ln_le bs' out by simp
        have "sim_idx F ?s' (d\<lparr>idx := idx d + 1, run := 0\<rparr>)"
          using r' i' id by (simp add: sim_idx_def)
        then show ?thesis using run_dec[OF ud rd0 f _ lt] by simp
      next
        case noflush: False
        then have out: "?out = []" using True by (simp add: enc_out_def)
        have r': "run ?s' = 1" unfolding s' using True noflush r0 by (simp add: enc_next_def)
        then have r'0: "run ?s' \<noteq> 0" by simp
        have b: "bytes ?s' = bytes ?s" using bs' out by simp
        obtain x rest' where x: "bytes ?sn = bytes ?s' @ (QOI_OP_RUN OR x) # rest'"
          "unat (run ?s') \<le> unat x + 1" "unat x \<le> 61"
          using enc_future_run[OF su k1 r'0] by blast
        have f: "F ! ?L = QOI_OP_RUN OR x" unfolding F x(1) b by (simp add: nth_append)
        have lt: "?L < ?Ln" using x(1) b by simp
        have "unat (run ?s') = 1" using r' by simp
        then have "sim_idx F ?s' (d\<lparr>idx := idx d + 1, run := x\<rparr>)"
          using r'0 b f x(3) ud1 by (auto simp: sim_idx_def)
        then show ?thesis using run_dec[OF ud rd0 f x(3) lt] by simp
      qed
    next
      case rn0: False
      then obtain x where ud: "unat (idx d) = ?L + 1" and x: "F ! ?L = QOI_OP_RUN OR x" "unat x \<le> 61"
        and rx: "unat (run d) + unat (run ?s) = unat x + 1"
        using si by (auto simp: sim_idx_def)
      show ?thesis
      proof (cases "run ?s + 1 = QOI_MAXIMUM_RUN \<or> fin")
        case flush: True
        then have out: "?out = [QOI_OP_RUN OR run ?s]" using True by (simp add: enc_out_def)
        have "F ! (?L + 0) = ?out ! 0" by (rule F_at) (simp add: out)
        then have "QOI_OP_RUN OR x = QOI_OP_RUN OR run ?s" using out x(1) by simp
        then have "x = run ?s" by (rule run_or_inj[OF _ x(2) r61])
        then have u1: "unat (run d) = 1" using rx by simp
        have r': "run ?s' = 0" unfolding s' using True flush by (simp add: enc_next_def)
        have l': "length (bytes ?s') = ?L + 1" using bs' out by simp
        have "run d = 1" using u1 by (rule unat_byte_1)
        moreover have "idx d = idx ?s'" using ud i_s' l' by (simp add: word_unat_eq_iff)
        ultimately have "sim_idx F ?s' (d\<lparr>run := run d - 1\<rparr>)"
          using r' by (simp add: sim_idx_def)
        then show ?thesis using rep_dec u1 by simp
      next
        case noflush: False
        then have out: "?out = []" using True by (simp add: enc_out_def)
        have r': "run ?s' = run ?s + 1" unfolding s' using True noflush by (simp add: enc_next_def)
        have r'0: "run ?s' \<noteq> 0" using run_succ(3)[OF r61] r' by simp
        have b: "bytes ?s' = bytes ?s" using bs' out by simp
        obtain y rest' where y: "bytes ?sn = bytes ?s' @ (QOI_OP_RUN OR y) # rest'"
          "unat (run ?s') \<le> unat y + 1" "unat y \<le> 61"
          using enc_future_run[OF su k1 r'0] by blast
        have "F ! ?L = QOI_OP_RUN OR y" unfolding F y(1) b by (simp add: nth_append)
        then have "QOI_OP_RUN OR x = QOI_OP_RUN OR y" using x(1) by simp
        then have "x = y" by (rule run_or_inj[OF _ x(2) y(3)])
        moreover have ur': "unat (run ?s') = unat (run ?s) + 1" using r' run_succ(1)[OF r61] by simp
        ultimately have "unat (run ?s) + 1 \<le> unat x + 1" using y(2) by simp
        then have rdp: "0 < unat (run d)" using rx by linarith
        then have rdn0: "run d \<noteq> 0" by (simp add: unat_gt_0)
        have "unat (run d - 1) + 1 = unat (run d)" by (rule byte_pred[OF rdn0])
        then have "unat (run d - 1) + unat (run ?s') = unat x + 1" using rx ur' by linarith
        then have "sim_idx F ?s' (d\<lparr>run := run d - 1\<rparr>)"
          using r'0 b ud x by (auto simp: sim_idx_def)
        then show ?thesis using rep_dec rdp by simp
      qed
    qed
  next
    case False
    define pre where "pre = (if run ?s > 0 then [QOI_OP_RUN OR (run ?s - 1)] else [])"
    define body where "body = (if c = mem ?s ! unat (qoi_hash c) then [QOI_OP_INDEX OR qoi_hash c]
              else enc_chunk (px_prev ?s) c)"
    have out: "?out = pre @ body" using False by (simp add: enc_out_def pre_def body_def)
    have r'0: "run ?s' = 0" unfolding s' using False by (simp add: enc_next_def)
    have body_pos: "0 < length body"
      using length_enc_chunk_pos[of "px_prev ?s" c] by (simp add: body_def)
    have pos: "unat (idx d) = ?L + length pre \<and> run d = 0"
    proof (cases "run ?s = 0")
      case True
      then have "idx d = idx ?s" "run d = 0" using si by (simp_all add: sim_idx_def)
      then show ?thesis using i_s True by (simp add: pre_def)
    next
      case rn0: False
      then obtain x where ud: "unat (idx d) = ?L + 1" and x: "F ! ?L = QOI_OP_RUN OR x" "unat x \<le> 61"
        and rx: "unat (run d) + unat (run ?s) = unat x + 1"
        using si by (auto simp: sim_idx_def)
      have pre: "pre = [QOI_OP_RUN OR (run ?s - 1)]" using rn0 by (simp add: pre_def word_gt_0)
      have "F ! (?L + 0) = ?out ! 0" by (rule F_at) (simp add: out pre)
      then have e: "QOI_OP_RUN OR x = QOI_OP_RUN OR (run ?s - 1)" using out pre x(1) by simp
      have "unat (run ?s - 1) \<le> 61" using byte_pred[OF rn0] r61 by linarith
      then have "x = run ?s - 1" by (rule run_or_inj[OF e x(2)])
      then have "unat (run d) = 0" using rx byte_pred[OF rn0] by simp
      then have "run d = 0" by (rule unat_byte_0)
      then show ?thesis using ud pre by simp
    qed
    define i where "i = ?L + length pre"
    have ud: "unat (idx d) = i" and rd0: "run d = 0" using pos by (simp_all add: i_def)
    have body_at: "F ! (i + j) = body ! j" if "j < length body" for j
    proof -
      have "F ! (?L + (length pre + j)) = ?out ! (length pre + j)"
        by (rule F_at) (simp add: out that)
      then show ?thesis by (simp add: i_def out add.assoc)
    qed
    have iend: "i + length body = length (bytes ?s')" using bs' out by (simp add: i_def)
    then have ib: "i + length body \<le> length F" using Ln_le LnF by linarith
    have "i < ?Ln" using iend body_pos Ln_le by linarith
    then have ltc: "idx d < px_chunks" using lt_chunks ud by simp
    have step: "dec_step F px_chunks d = dec_op F d"
      using rd0 ltc by (simp add: dec_step_def)
    have "i + length body < 2 ^ 32" using ib lenF by linarith
    then have uend: "unat (idx d + of_nat (length body)) = i + length body"
      using unat_plus_small[of "idx d" "length body"] ud by simp
    then have idx_eq: "idx d + of_nat (length body) = idx ?s'"
      using iend i_s' by (simp add: word_unat_eq_iff)
    show ?thesis
    proof (cases "c = mem ?s ! unat (qoi_hash c)")
      case True
      then have body: "body = [QOI_OP_INDEX OR qoi_hash c]" by (simp add: body_def)
      have mem': "mem ?s' = mem ?s" unfolding s' using True by (simp add: enc_next_def)
      have hit: "mem d ! unat (qoi_hash c) = c" using coh_hit[OF co True[symmetric]] .
      have f0: "F ! i = QOI_OP_INDEX OR qoi_hash c" using body_at[of 0] body by simp
      have il: "i < length F" using ib body by simp
      have h63: "unat (qoi_hash c) \<le> 63" using qoi_hash_less[of c] by simp
      define d1 where "d1 = d\<lparr>idx := idx d + 1, px_curr := mem d ! unat (qoi_hash c),
            mem := (mem d)[unat (qoi_hash (mem d ! unat (qoi_hash c))) := mem d ! unat (qoi_hash c)]\<rparr>"
      have op: "dec_op F d = Some d1"
        unfolding d1_def by (rule dec_op_index[OF ud il f0 h63])
      have "(mem d)[unat (qoi_hash c) := c] = mem d" using hit by (metis list_update_id)
      then have m1: "mem d1 = mem d" unfolding d1_def using hit by simp
      have i1: "idx d1 = idx ?s'" unfolding d1_def using idx_eq body by simp
      have "sim_rel F ?s' d1"
        unfolding sim_rel_def sim_idx_def using r'0 m1 mem' co lmd i1 c' hit rd0
        by (simp add: d1_def)
      then show ?thesis using step op by (auto simp: d1_def)
    next
      case miss: False
      then have body: "body = enc_chunk (px_prev ?s) c" by (simp add: body_def)
      have mem': "mem ?s' = (mem ?s)[unat (qoi_hash c) := c]"
        unfolding s' using miss False by (simp add: enc_next_def)
      define d1 where "d1 = d\<lparr>idx := idx d + of_nat (length (enc_chunk (px_prev ?s) c)), px_curr := c,
            mem := (mem d)[unat (qoi_hash c) := c]\<rparr>"
      have op: "dec_op F d = Some d1"
        unfolding d1_def
      proof (rule dec_op_chunk[OF ud _ lenF _ pd[symmetric]])
        show "i + length (enc_chunk (px_prev ?s) c) \<le> length F" using ib body by simp
        show "\<And>j. j < length (enc_chunk (px_prev ?s) c) \<Longrightarrow> F ! (i + j) = enc_chunk (px_prev ?s) c ! j"
          using body_at body by simp
      qed
      have co1: "coh (mem ?s') (mem d1)"
        unfolding mem' d1_def using coh_update[OF co lm lmd] by simp
      have i1: "idx d1 = idx ?s'" unfolding d1_def using idx_eq body by simp
      have "sim_rel F ?s' d1"
        unfolding sim_rel_def sim_idx_def using r'0 co1 lmd i1 c' rd0
        by (simp add: d1_def)
      then show ?thesis using step op by (auto simp: d1_def)
    qed
  qed
qed

lemma sim_rel_px [simp]: "sim_rel F s (d\<lparr>px := b\<rparr>) = sim_rel F s d"
  by (simp add: sim_rel_def sim_idx_def)

lemma uint_chans_4: "(uint (chans :: byte) = 4) = (chans = 4)"
  using word_uint_eq_iff[of chans 4] by simp

lemma sim_body:
  assumes su: "enc_setup data chans px_end s0 n" and kn: "k < n"
    and F: "F = bytes (enc_at data chans px_end s0 n) @ pad"
    and pc: "px_chunks = of_nat (length (bytes (enc_at data chans px_end s0 n)))"
    and lenF: "length F < 2 ^ 32"
    and R: "sim_rel F (enc_at data chans px_end s0 k) d"
    and P: "px d = take (k * unat chans) data"
    and pl: "(k + 1) * unat chans \<le> unat pl"
  shows "\<exists>d'. dec_body F px_chunks (uint chans) pl (of_nat (k * unat chans)) d = Some d'
           \<and> sim_rel F (enc_at data chans px_end s0 (Suc k)) d'
           \<and> px d' = take (Suc k * unat chans) data"
proof -
  let ?s = "enc_at data chans px_end s0 k"
  let ?s' = "enc_at data chans px_end s0 (Suc k)"
  have ch: "chans = 3 \<or> chans = 4" and dl: "length data = n * unat chans"
    using su by (simp_all add: enc_setup_def)
  obtain d1 where d1: "dec_step F px_chunks d = Some d1" "px d1 = px d" "sim_rel F ?s' d1"
    using sim_fetch[OF su kn F pc lenF R] by blast
  have c': "px_curr d1 = pix data chans k (px_curr ?s)"
    using d1(3) by (simp add: sim_rel_def enc_at.simps Let_def enc_next_def)
  have kc: "(k + 1) * unat chans \<le> length data"
    unfolding dl using kn by (intro mult_le_mono1) simp
  have lp: "length (px d1) = k * unat chans" using d1(2) P kc by simp
  have "k * unat chans \<le> unat pl" using pl by simp
  also have "unat pl < 2 ^ 32" using unsigned_less[of pl, where 'a = nat] by simp
  finally have kc32: "k * unat chans < 2 ^ 32" .
  have up: "unat (of_nat (k * unat chans) :: u32) = length (px d1)"
    using unat_of_nat_u32[OF kc32] lp by simp
  have lo: "length (px_out (uint chans) (px_curr d1)) = unat chans"
    using ch by (auto simp: px_out_def uint_chans_4)
  have room: "length (px d1) + length (px_out (uint chans) (px_curr d1)) \<le> unat pl"
    using lp lo pl by simp
  have w: "wr (unat pl) (px d1) (of_nat (k * unat chans)) (px_out (uint chans) (px_curr d1))
      = Some (px d1 @ px_out (uint chans) (px_curr d1))"
    using up room by (simp only: wr_def) simp
  have tk: "take (Suc k * unat chans) data = take (k * unat chans) data @ px_out (uint chans) (px_curr d1)"
    using take_pixel[OF ch kc, of "px_curr ?s"] c' by simp
  have "dec_body F px_chunks (uint chans) pl (of_nat (k * unat chans)) d
      = Some (d1\<lparr>px := px d1 @ px_out (uint chans) (px_curr d1)\<rparr>)"
    unfolding dec_body_def by (simp only: d1(1) bind.bind_lunit w)
  moreover have "px (d1\<lparr>px := px d1 @ px_out (uint chans) (px_curr d1)\<rparr>) = take (Suc k * unat chans) data"
    using tk d1(2) P by simp
  ultimately show ?thesis using d1(3) by (intro exI[of _ "d1\<lparr>px := px d1 @ px_out (uint chans) (px_curr d1)\<rparr>"]) simp
qed

lemma sim_iter:
  assumes su: "enc_setup data chans px_end s0 n"
    and F: "F = bytes (enc_at data chans px_end s0 n) @ pad"
    and pc: "px_chunks = of_nat (length (bytes (enc_at data chans px_end s0 n)))"
    and lenF: "length F < 2 ^ 32"
    and R: "sim_rel F s0 d0" and P: "px d0 = []"
    and pl: "m * unat chans \<le> unat pl" and mn: "m \<le> n"
  shows "k \<le> m \<Longrightarrow>
     \<exists>d. iter (\<lambda>j. dec_body F px_chunks (uint chans) pl (of_nat (j * unat chans))) 0 k d0 = Some d
         \<and> sim_rel F (enc_at data chans px_end s0 k) d
         \<and> px d = take (k * unat chans) data"
proof (induction k)
  case 0
  then show ?case using R P by (simp add: enc_at.simps)
next
  case (Suc k)
  then obtain d where d: "iter (\<lambda>j. dec_body F px_chunks (uint chans) pl (of_nat (j * unat chans))) 0 k d0 = Some d"
    "sim_rel F (enc_at data chans px_end s0 k) d" "px d = take (k * unat chans) data"
    by auto
  have kn: "k < n" using Suc.prems mn by simp
  have "(k + 1) * unat chans \<le> m * unat chans" using Suc.prems by (intro mult_le_mono1) simp
  then have pl': "(k + 1) * unat chans \<le> unat pl" using pl by linarith
  obtain d' where d': "dec_body F px_chunks (uint chans) pl (of_nat (k * unat chans)) d = Some d'"
    "sim_rel F (enc_at data chans px_end s0 (Suc k)) d'" "px d' = take (Suc k * unat chans) data"
    using sim_body[OF su kn F pc lenF d(2,3) pl'] by blast
  have "iter (\<lambda>j. dec_body F px_chunks (uint chans) pl (of_nat (j * unat chans))) 0 (Suc k) d0 = Some d'"
    by (simp only: iter_Suc[OF le0] d(1) bind.bind_lunit d'(1))
  then show ?case using d'(2,3) by blast
qed

lemma enc_setup_start:
  assumes v: "\<not> enc_invalid desc" and len: "length data = npx desc * unat (channels desc)"
  shows "enc_setup data (channels desc) (enc_px_end desc) (enc_start desc) (npx desc)"
proof -
  note a = enc_valid_arith[OF v]
  have "npx desc * (unat (channels desc) + 1) \<le> npx desc * 5"
    using a(4) by (intro mult_le_mono2) auto
  then have "14 + npx desc * (unat (channels desc) + 1) + 13 \<le> 2000000027" using a(2) by linarith
  then have "length (bytes (enc_start desc)) + npx desc * (unat (channels desc) + 1) + 13 < 2 ^ 32"
    by (simp add: enc_start_def)
  moreover have "run (enc_start desc) = 0" by (simp add: enc_start_def enc_init_def)
  ultimately show ?thesis
    unfolding enc_setup_def using a(1,3) len enc_px_end_eq[OF a(1)] enc_inv_start by blast
qed

lemma qoi_read_write_32:
  assumes "i + 3 < length F" "length F < 2 ^ 32" "unat x = i"
    and "\<And>j. j < 4 \<Longrightarrow> F ! (i + j) = qoi_write_32 v ! j"
  shows "qoi_read_32 F x = Some (v, x + 4)"
proof -
  have b: "F ! i = ucast (drop_bit 24 v)" "F ! (i + 1) = ucast (drop_bit 16 v)"
    "F ! (i + 2) = ucast (drop_bit 8 v)" "F ! (i + 3) = ucast v"
    using assms(4)[of 0] assms(4)[of 1] assms(4)[of 2] assms(4)[of 3]
    by (simp_all add: qoi_write_32_be)
  have i0: "i < length F" "i + 1 < length F" "i + 2 < length F" using assms(1) by simp_all
  have r: "rd F x = Some (F ! i)" "rd F (x + 1) = Some (F ! (i + 1))"
    "rd F (x + 2) = Some (F ! (i + 2))" "rd F (x + 3) = Some (F ! (i + 3))"
    using rd_at0[OF assms(3) i0(1)] rd_at1[OF assms(3) i0(2) assms(2)]
      rd_at2[OF assms(3) i0(3) assms(2)] rd_at3[OF assms(3) assms(1) assms(2)] by simp_all
  show ?thesis
    unfolding qoi_read_32_def r b by (simp add: read_write_32)
qed

lemma length_qoi_write_32 [simp]: "length (qoi_write_32 v) = 4"
  by (simp add: qoi_write_32_def)

lemma dec_header_enc:
  assumes F: "F = qoi_header desc @ rest" and small: "length F < 2 ^ 32"
  shows "dec_header F d0 = Some (QOI_MAGIC,
           d0\<lparr>width := width desc, height := height desc, channels := channels desc,
              colorspace := colorspace desc\<rparr>, 14)"
proof -
  have l: "14 \<le> length F" using F by simp
  have at: "F ! j = qoi_header desc ! j" if "j < 14" for j
    using that F by (simp add: nth_append)
  have h: "qoi_header desc ! j = qoi_write_32 QOI_MAGIC ! j"
    "qoi_header desc ! (4 + j) = qoi_write_32 (width desc) ! j"
    "qoi_header desc ! (8 + j) = qoi_write_32 (height desc) ! j" if "j < 4" for j
    using that by (simp_all add: qoi_header_def nth_append)
  have h2: "qoi_header desc ! 12 = channels desc" "qoi_header desc ! 13 = colorspace desc"
    by (simp_all add: qoi_header_def nth_append)
  have r1: "qoi_read_32 F 0 = Some (QOI_MAGIC, 0 + 4)"
    by (rule qoi_read_write_32[where i = 0]) (use l small at h in simp_all)
  have r2: "qoi_read_32 F 4 = Some (width desc, 4 + 4)"
    by (rule qoi_read_write_32[where i = 4]) (use l small at h in simp_all)
  have r3: "qoi_read_32 F 8 = Some (height desc, 8 + 4)"
    by (rule qoi_read_write_32[where i = 8]) (use l small at h in simp_all)
  have r4: "rd F 12 = Some (channels desc)" "rd F 13 = Some (colorspace desc)"
    using l at[of 12] at[of 13] h2 by (simp_all add: rd_def)
  show ?thesis
    unfolding dec_header_def using r1 r2 r3 r4 by simp
qed

lemma dec_invalid_enc: "\<not> enc_invalid desc \<Longrightarrow> \<not> dec_invalid QOI_MAGIC desc"
  by (auto simp: enc_invalid_def dec_invalid_def word_less_nat_alt)

lemma desc_all_fields:
  "(d0 :: qoi_desc)\<lparr>width := width desc, height := height desc, channels := channels desc,
              colorspace := colorspace desc\<rparr> = desc"
  by (cases d0; cases desc) simp

lemma length_enc_stream: "length (enc_stream data desc) = length (bytes (enc_final data desc)) + 8"
  by (simp add: enc_stream_def qoi_padding_def)

lemma dec_px_chunks_stream:
  "dec_px_chunks (int (length (enc_stream data desc))) = of_nat (length (bytes (enc_final data desc)))"
  by (simp add: dec_px_chunks_def length_enc_stream qoi_padding_def)

lemma enc_stream_small:
  assumes v: "\<not> enc_invalid desc" and len: "length data = npx desc * unat (channels desc)"
  shows "length (enc_stream data desc) \<le> 2000000022"
proof -
  note a = enc_valid_arith[OF v]
  have "npx desc * (unat (channels desc) + 1) \<le> npx desc * 5"
    using a(4) by (intro mult_le_mono2) auto
  then have "enc_size desc \<le> 2000000022" using a(2) enc_size_eq[OF v] by linarith
  moreover have "length (bytes (enc_final data desc)) + 8 \<le> enc_size desc"
    using qoi_encode_eq(2)[OF v _ len, of "\<lambda>n. True"] by simp
  ultimately show ?thesis using length_enc_stream[of data desc] by linarith
qed

lemma enc_stream_header:
  "\<exists>rest. enc_stream data desc = qoi_header desc @ rest"
  "22 \<le> length (enc_stream data desc)"
proof -
  obtain rest where "bytes (enc_at data (channels desc) (enc_px_end desc) (enc_start desc) (npx desc))
       = bytes (enc_at data (channels desc) (enc_px_end desc) (enc_start desc) 0) @ rest"
    using enc_at_bytes_prefix[of 0 "npx desc"] by blast
  then show "\<exists>rest. enc_stream data desc = qoi_header desc @ rest"
    "22 \<le> length (enc_stream data desc)"
    by (simp_all add: enc_stream_def enc_final_def enc_at.simps enc_start_def qoi_padding_def)
qed

lemma dec_loop_enc:
  assumes v: "\<not> enc_invalid desc" and len: "length data = npx desc * unat (channels desc)"
    and k: "k \<le> npx desc"
  shows "\<exists>d. dec_loop (enc_stream data desc) (dec_px_chunks (int (length (enc_stream data desc))))
                (uint (channels desc)) (of_nat (k * unat (channels desc))) 0 (dec_init\<lparr>idx := 14\<rparr>) = Some d
           \<and> sim_rel (enc_stream data desc)
                (enc_at data (channels desc) (enc_px_end desc) (enc_start desc) k) d
           \<and> px d = take (k * unat (channels desc)) data"
proof -
  let ?c = "unat (channels desc)" and ?F = "enc_stream data desc"
  note a = enc_valid_arith[OF v]
  note su = enc_setup_start[OF v len]
  have c0: "0 < ?c" using a(4) by auto
  have cw: "(word_of_int (uint (channels desc)) :: u32) = of_nat ?c" by simp
  have "k * ?c \<le> npx desc * 4" using k a(4) by (intro mult_le_mono) auto
  then have "k * ?c \<le> 1600000000" using a(2) by linarith
  then have kc: "k * ?c < 2 ^ 32" by simp
  have F: "?F = bytes (enc_at data (channels desc) (enc_px_end desc) (enc_start desc) (npx desc)) @ qoi_padding"
    by (simp add: enc_stream_def enc_final_def)
  have pc: "dec_px_chunks (int (length ?F))
      = of_nat (length (bytes (enc_at data (channels desc) (enc_px_end desc) (enc_start desc) (npx desc))))"
    using dec_px_chunks_stream[of data desc] by (simp add: enc_final_def)
  have "length ?F \<le> 2000000022" by (rule enc_stream_small[OF v len])
  then have lenF: "length ?F < 2 ^ 32" by simp
  have R0: "sim_rel ?F (enc_start desc) (dec_init\<lparr>idx := 14\<rparr>)"
    by (simp add: sim_rel_def sim_idx_def enc_start_def dec_init_def enc_init_def coh_refl MEMORY_SIZE_def)
  have P0: "px (dec_init\<lparr>idx := 14\<rparr>) = []" by (simp add: dec_init_def)
  have pl: "k * ?c \<le> unat (of_nat (k * ?c) :: u32)" using unat_of_nat_u32[OF kc] by simp
  have "dec_loop ?F (dec_px_chunks (int (length ?F))) (uint (channels desc)) (of_nat (k * ?c)) (of_nat (0 * ?c))
          (dec_init\<lparr>idx := 14\<rparr>)
      = iter (\<lambda>j. dec_body ?F (dec_px_chunks (int (length ?F))) (uint (channels desc)) (of_nat (k * ?c))
                   (of_nat (j * ?c))) 0 k (dec_init\<lparr>idx := 14\<rparr>)"
    by (rule dec_loop_iter[OF c0 cw kc le0])
  moreover have "\<exists>d. iter (\<lambda>j. dec_body ?F (dec_px_chunks (int (length ?F))) (uint (channels desc)) (of_nat (k * ?c))
                   (of_nat (j * ?c))) 0 k (dec_init\<lparr>idx := 14\<rparr>) = Some d
         \<and> sim_rel ?F (enc_at data (channels desc) (enc_px_end desc) (enc_start desc) k) d
         \<and> px d = take (k * ?c) data"
    by (rule sim_iter[OF su F pc lenF R0 P0 pl k le_refl])
  ultimately show ?thesis by simp
qed

theorem qoi_decode_enc:
  assumes v: "\<not> enc_invalid desc" and len: "length data = npx desc * unat (channels desc)"
    and m: "malloc (length data)" and ch: "chans = 0 \<or> chans = uint (channels desc)"
  shows "qoi_decode malloc (enc_stream data desc) (int (length (enc_stream data desc))) d0 chans
           = Some (Inr data, desc)"
proof -
  let ?c = "unat (channels desc)" and ?F = "enc_stream data desc"
  note a = enc_valid_arith[OF v]
  obtain rest where rest: "?F = qoi_header desc @ rest" using enc_stream_header(1) by blast
  have "length ?F \<le> 2000000022" by (rule enc_stream_small[OF v len])
  then have lenF: "length ?F < 2 ^ 32" by simp
  have hd: "dec_header ?F d0 = Some (QOI_MAGIC, desc, 14)"
    using dec_header_enc[OF rest lenF, of d0] by (simp only: desc_all_fields)
  have ninv: "\<not> dec_invalid QOI_MAGIC desc" by (rule dec_invalid_enc[OF v])
  have dc: "dec_channels desc chans = uint (channels desc)" using ch by (auto simp: dec_channels_def)
  have "npx desc * ?c \<le> npx desc * 4" using a(4) by (intro mult_le_mono) auto
  then have "npx desc * ?c \<le> 1600000000" using a(2) by linarith
  then have nc: "npx desc * ?c < 2 ^ 32" by simp
  have plw: "dec_px_len desc (uint (channels desc)) = of_nat (npx desc * ?c)"
    by (simp add: dec_px_len_def npx_def)
  then have pl: "unat (dec_px_len desc (uint (channels desc))) = length data"
    using unat_of_nat_u32[OF nc] len by simp
  obtain d where d: "dec_loop ?F (dec_px_chunks (int (length ?F))) (uint (channels desc))
        (of_nat (npx desc * ?c)) 0 (dec_init\<lparr>idx := 14\<rparr>) = Some d"
    "px d = take (npx desc * ?c) data"
    using dec_loop_enc[OF v len le_refl] by blast
  have pd: "px d = data" using d(2) len by simp
  have lp: "dec_loop ?F (dec_px_chunks (int (length ?F))) (uint (channels desc))
        (dec_px_len desc (uint (channels desc))) 0 (dec_init\<lparr>idx := 14\<rparr>) = Some d"
    using d(1) by (simp only: plw)
  have sz: "\<not> int (length ?F) < int QOI_HEADER_SIZE + int (length qoi_padding)"
    using enc_stream_header(2)[of data desc] by (simp add: qoi_consts)
  have cok: "\<not> (chans \<noteq> 0 \<and> chans \<noteq> 3 \<and> chans \<noteq> 4)" using ch a(3) by auto
  show ?thesis
    unfolding qoi_decode_def
    using sz cok by (simp add: hd ninv dc pl m lp pd Let_def)
qed

lemma qoi_header_bytes:
  "qoi_header desc =
     [0x71, 0x6f, 0x69, 0x66,
      ucast (drop_bit 24 (width desc)), ucast (drop_bit 16 (width desc)),
      ucast (drop_bit 8 (width desc)), ucast (width desc),
      ucast (drop_bit 24 (height desc)), ucast (drop_bit 16 (height desc)),
      ucast (drop_bit 8 (height desc)), ucast (height desc),
      channels desc, colorspace desc]"
proof -
  have "qoi_write_32 QOI_MAGIC = [0x71, 0x6f, 0x69, 0x66]"
    by (simp add: qoi_write_32_def QOI_MAGIC_def)
  then show ?thesis by (simp add: qoi_header_def qoi_write_32_be)
qed

lemma qoi_read_32_eq:
  assumes "i + 3 < length data" "length data < 2 ^ 32" "unat x = i"
  shows "qoi_read_32 data x = Some (hdr_u32 data i, x + 4)"
proof -
  have i0: "i < length data" "i + 1 < length data" "i + 2 < length data" using assms(1) by simp_all
  have r: "rd data x = Some (data ! i)" "rd data (x + 1) = Some (data ! (i + 1))"
    "rd data (x + 2) = Some (data ! (i + 2))" "rd data (x + 3) = Some (data ! (i + 3))"
    using rd_at0[OF assms(3) i0(1)] rd_at1[OF assms(3) i0(2) assms(2)]
      rd_at2[OF assms(3) i0(3) assms(2)] rd_at3[OF assms(3) assms(1) assms(2)] by simp_all
  show ?thesis
    unfolding qoi_read_32_def r hdr_u32_def by simp
qed

lemma dec_header_eq:
  assumes l: "14 \<le> length data" and small: "length data < 2 ^ 32"
  shows "dec_header data desc = Some (hdr_u32 data 0, hdr_desc data desc, 14)"
proof -
  have r1: "qoi_read_32 data 0 = Some (hdr_u32 data 0, 0 + 4)"
    by (rule qoi_read_32_eq) (use l small in simp_all)
  have r2: "qoi_read_32 data 4 = Some (hdr_u32 data 4, 4 + 4)"
    by (rule qoi_read_32_eq) (use l small in simp_all)
  have r3: "qoi_read_32 data 8 = Some (hdr_u32 data 8, 8 + 4)"
    by (rule qoi_read_32_eq) (use l small in simp_all)
  have r4: "rd data 12 = Some (data ! 12)" "rd data 13 = Some (data ! 13)"
    using l by (simp_all add: rd_def)
  show ?thesis
    unfolding dec_header_def hdr_desc_def using r1 r2 r3 r4 by simp
qed

lemma dec_header_short:
  assumes "length data < 14"
  shows "dec_header data desc = None"
proof -
  have "rd data 13 = None" using assms by (simp add: rd_def)
  then show ?thesis
    unfolding dec_header_def qoi_read_32_def
    by (auto simp: bind_eq_None_conv split: prod.splits)
qed

lemma dec_op_safe:
  assumes b: "unat (idx st) + 5 \<le> length data" and small: "length data < 2 ^ 32"
  shows "\<exists>st'. dec_op data st = Some st' \<and> unat (idx st') \<le> unat (idx st) + 5 \<and> px st' = px st"
proof -
  define i where "i = unat (idx st)"
  have i: "unat (idx st) = i" by (simp add: i_def)
  have l: "i < length data" "i + 1 < length data" "i + 2 < length data" "i + 3 < length data"
    "i + 4 < length data" using b by (simp_all add: i_def)
  have r: "rd data (idx st) = Some (data ! i)" "rd data (idx st + 1) = Some (data ! (i + 1))"
    "rd data (idx st + 2) = Some (data ! (i + 2))" "rd data (idx st + 3) = Some (data ! (i + 3))"
    "rd data (idx st + 4) = Some (data ! (i + 4))"
    using rd_at0[OF i l(1)] rd_at1[OF i l(2) small] rd_at2[OF i l(3) small] rd_at3[OF i l(4) small]
      rd_at4[OF i l(5) small] by simp_all
  have s: "i + 5 < 2 ^ 32" using b small by (simp add: i_def)
  have u: "unat (idx st + 1) = i + 1" "unat (idx st + 2) = i + 2" "unat (idx st + 4) = i + 4"
    "unat (idx st + 5) = i + 5"
    using unat_plus_small[of "idx st" 1] unat_plus_small[of "idx st" 2] unat_plus_small[of "idx st" 4]
      unat_plus_small[of "idx st" 5] s i by simp_all
  show ?thesis
    unfolding i
    by (simp add: dec_op_def Let_def r u add.assoc)
qed

lemma dec_step_safe:
  assumes pc: "unat px_chunks + 8 = length data" and small: "length data < 2 ^ 32"
    and b: "unat (idx st) + 4 \<le> length data"
  shows "\<exists>st'. dec_step data px_chunks st = Some st' \<and> unat (idx st') + 4 \<le> length data
           \<and> px st' = px st"
proof (cases "run st > 0")
  case True
  then show ?thesis using b by (simp add: dec_step_def)
next
  case False
  show ?thesis
  proof (cases "idx st < px_chunks")
    case True
    then have "unat (idx st) < unat px_chunks" by (simp add: word_less_nat_alt)
    then have b5: "unat (idx st) + 5 \<le> length data" and b9: "unat (idx st) + 9 \<le> length data"
      using pc by linarith+
    obtain st' where "dec_op data st = Some st'" "unat (idx st') \<le> unat (idx st) + 5" "px st' = px st"
      using dec_op_safe[OF b5 small] by blast
    moreover from this b9 have "unat (idx st') + 4 \<le> length data" by linarith
    ultimately show ?thesis using False True by (simp add: dec_step_def)
  next
    case nl: False
    then show ?thesis using False b by (simp add: dec_step_def)
  qed
qed

lemma length_px_out: "chans = 3 \<or> chans = 4 \<Longrightarrow> length (px_out chans p) = nat chans"
  by (auto simp: px_out_def)

lemma dec_body_safe:
  assumes pc: "unat px_chunks + 8 = length data" and small: "length data < 2 ^ 32"
    and b: "unat (idx st) + 4 \<le> length data"
    and lp: "length (px st) = unat pos" and c: "chans = 3 \<or> chans = 4"
    and cap: "unat pos + nat chans \<le> unat pl"
  shows "\<exists>st'. dec_body data px_chunks chans pl pos st = Some st'
           \<and> unat (idx st') + 4 \<le> length data
           \<and> length (px st') = unat pos + nat chans"
proof -
  obtain st1 where s: "dec_step data px_chunks st = Some st1" "unat (idx st1) + 4 \<le> length data"
      "px st1 = px st"
    using dec_step_safe[OF pc small b] by blast
  have w: "wr (unat pl) (px st1) pos (px_out chans (px_curr st1))
      = Some (px st1 @ px_out chans (px_curr st1))"
    using lp cap s(3) length_px_out[OF c] by (simp add: wr_def)
  show ?thesis
    unfolding dec_body_def using s w lp length_px_out[OF c] by simp
qed

lemma dec_iter_safe:
  assumes pc: "unat px_chunks + 8 = length data" and small: "length data < 2 ^ 32"
    and b: "unat (idx st) + 4 \<le> length data" and lp: "length (px st) = k * c"
    and c: "chans = 3 \<or> chans = 4" "c = nat chans"
    and cap: "n * c \<le> unat (pl :: u32)"
  shows "k \<le> m \<Longrightarrow> m \<le> n \<Longrightarrow>
    \<exists>st'. iter (\<lambda>j. dec_body data px_chunks chans pl (of_nat (j * c))) k m st = Some st'
      \<and> unat (idx st') + 4 \<le> length data \<and> length (px st') = m * c"
proof (induction m)
  case 0
  then show ?case using b lp by simp
next
  case (Suc m)
  show ?case
  proof (cases "k = Suc m")
    case True
    then show ?thesis using b lp by simp
  next
    case False
    then have km: "k \<le> m" and mn: "m < n" using Suc.prems by simp_all
    obtain s1 where s1: "iter (\<lambda>j. dec_body data px_chunks chans pl (of_nat (j * c))) k m st = Some s1"
        "unat (idx s1) + 4 \<le> length data" "length (px s1) = m * c"
      using Suc.IH[OF km] mn by auto
    have "Suc m * c \<le> n * c" using mn by (intro mult_le_mono1) simp
    then have le: "m * c + c \<le> unat pl" using cap by simp
    have "unat pl < 2 ^ 32" using unsigned_less[of pl, where 'a = nat] by simp
    then have "m * c < 2 ^ 32" using le by linarith
    then have u: "unat (of_nat (m * c) :: u32) = m * c" by (rule unat_of_nat_u32)
    define pos :: u32 where "pos = of_nat (m * c)"
    have up: "unat pos = m * c" unfolding pos_def by (rule u)
    have lp1: "length (px s1) = unat pos" using s1(3) up by simp
    have cap1: "unat pos + nat chans \<le> unat pl" using le up c(2) by simp
    obtain s2 where s2: "dec_body data px_chunks chans pl pos s1 = Some s2"
        "unat (idx s2) + 4 \<le> length data" "length (px s2) = unat pos + nat chans"
      using dec_body_safe[OF pc small s1(2) lp1 c(1) cap1] by blast
    have "iter (\<lambda>j. dec_body data px_chunks chans pl (of_nat (j * c))) k (Suc m) st
        = Option.bind (Some s1) (dec_body data px_chunks chans pl (of_nat (m * c)))"
      using iter_Suc[OF km, of "\<lambda>j. dec_body data px_chunks chans pl (of_nat (j * c))" st]
      by (simp only: s1(1))
    also have "\<dots> = Some s2" using s2(1) by (simp only: bind.bind_lunit pos_def)
    finally have r: "iter (\<lambda>j. dec_body data px_chunks chans pl (of_nat (j * c))) k (Suc m) st = Some s2" .
    have "length (px s2) = Suc m * c" using s2(3) up c(2) by simp
    then show ?thesis using r s2(2) by blast
  qed
qed






lemma byte_3_4: "\<not> (c :: byte) < 3 \<Longrightarrow> \<not> c > 4 \<Longrightarrow> c = 3 \<or> c = 4"
proof -
  assume a: "\<not> c < 3" "\<not> c > 4"
  then have "unat c = 3 \<or> unat c = 4" by (auto simp: word_less_nat_alt)
  then have "unat c = unat (3 :: byte) \<or> unat c = unat (4 :: byte)" by simp
  then show ?thesis by (simp only: word_unat_eq_iff)
qed

lemma dec_valid:
  assumes "\<not> dec_invalid magic hdd"
  shows "\<not> enc_invalid hdd" and "magic = QOI_MAGIC"
  using assms byte_3_4[of "channels hdd"] by (auto simp: dec_invalid_def enc_invalid_def)

lemma dec_channels_3_4:
  assumes "chans = 0 \<or> chans = 3 \<or> chans = 4" and "channels hdd = 3 \<or> channels hdd = 4"
  shows "dec_channels hdd chans = 3 \<or> dec_channels hdd chans = 4"
  using assms by (auto simp: dec_channels_def)

lemma dec_px_len_eq:
  assumes "c = 3 \<or> c = (4 :: int)"
  shows "dec_px_len hdd c = of_nat (npx hdd * nat c)"
  using assms by (auto simp: dec_px_len_def npx_def)

lemma dec_px_chunks_eq:
  assumes "8 \<le> length data" "length data < 2 ^ 32"
  shows "unat (dec_px_chunks (int (length data))) + 8 = length data"
proof -
  have e: "int (length data) - 8 = int (length data - 8)" using assms(1) by simp
  have "int (length qoi_padding) = 8" by (simp add: qoi_padding_def)
  then have "dec_px_chunks (int (length data)) = word_of_int (int (length data - 8))"
    unfolding dec_px_chunks_def by (simp only: e)
  then have "dec_px_chunks (int (length data)) = of_nat (length data - 8)"
    by (simp only: word_of_int_nat of_int_of_nat_eq)
  moreover have "unat (of_nat (length data - 8) :: u32) = length data - 8"
    using assms(2) by (intro unat_of_nat_u32) simp
  ultimately show ?thesis using assms(1) by simp
qed

lemma dec_header_any:
  assumes l: "14 \<le> length data"
  shows "dec_header data desc = Some (hdr_u32 data 0, hdr_desc data desc, 14)"
proof -
  have r: "rd data 0 = Some (data ! 0)" "rd data 1 = Some (data ! 1)" "rd data 2 = Some (data ! 2)"
    "rd data 3 = Some (data ! 3)" "rd data 4 = Some (data ! 4)" "rd data 5 = Some (data ! 5)"
    "rd data 6 = Some (data ! 6)" "rd data 7 = Some (data ! 7)" "rd data 8 = Some (data ! 8)"
    "rd data 9 = Some (data ! 9)" "rd data 10 = Some (data ! 10)" "rd data 11 = Some (data ! 11)"
    "rd data 12 = Some (data ! 12)" "rd data 13 = Some (data ! 13)"
    using l by (auto simp: rd_def)
  show ?thesis
    unfolding dec_header_def qoi_read_32_def hdr_desc_def hdr_u32_def using r by (simp add: numeral_2_eq_2[symmetric])
qed

text \<open>The loop of the decoder on any buffer with a valid header.\<close>

lemma dec_loop_safe:
  assumes l: "22 \<le> length data" and small: "length data < 2 ^ 32"
    and c: "chans = 3 \<or> chans = 4" and n: "n < 400000000" and k: "k \<le> n"
  shows "\<exists>st. dec_loop data (dec_px_chunks (int (length data))) chans (of_nat (k * nat chans)) 0
              (dec_init\<lparr>idx := 14\<rparr>) = Some st
           \<and> iter (\<lambda>j. dec_body data (dec_px_chunks (int (length data))) chans
                        (of_nat (k * nat chans)) (of_nat (j * nat chans))) 0 k (dec_init\<lparr>idx := 14\<rparr>)
               = Some st
           \<and> unat (idx st) + 4 \<le> length data \<and> length (px st) = k * nat chans"
proof -
  define c' where "c' = nat chans"
  have c3: "c' = 3 \<or> c' = 4" using c by (auto simp: c'_def)
  then have c0: "0 < c'" by auto
  have cw: "(word_of_int chans :: u32) = of_nat c'" using c by (auto simp: c'_def)
  have "k * c' \<le> n * 4" using k c3 by (intro mult_le_mono) auto
  then have kc: "k * c' \<le> 1600000000" using n by linarith
  then have kc32: "k * c' < 2 ^ 32" by simp
  define pl :: u32 where "pl = of_nat (k * c')"
  have upl: "unat pl = k * c'" unfolding pl_def using kc32 by (rule unat_of_nat_u32)
  have pc: "unat (dec_px_chunks (int (length data))) + 8 = length data"
    by (rule dec_px_chunks_eq) (use l small in simp_all)
  have b0: "unat (idx (dec_init\<lparr>idx := 14\<rparr>)) + 4 \<le> length data" using l by simp
  have lp0: "length (px (dec_init\<lparr>idx := 14\<rparr>)) = 0 * c'" by (simp add: dec_init_def)
  have cap: "k * c' \<le> unat pl" using upl by simp
  obtain st where st: "iter (\<lambda>j. dec_body data (dec_px_chunks (int (length data))) chans pl
                        (of_nat (j * c'))) 0 k (dec_init\<lparr>idx := 14\<rparr>) = Some st"
      "unat (idx st) + 4 \<le> length data" "length (px st) = k * c'"
    using dec_iter_safe[OF pc small b0 lp0 c c'_def cap, of k] by auto
  have "dec_loop data (dec_px_chunks (int (length data))) chans (of_nat (k * c')) (of_nat (0 * c'))
          (dec_init\<lparr>idx := 14\<rparr>)
      = iter (\<lambda>j. dec_body data (dec_px_chunks (int (length data))) chans (of_nat (k * c'))
                 (of_nat (j * c'))) 0 k (dec_init\<lparr>idx := 14\<rparr>)"
    by (rule dec_loop_iter[OF c0 cw kc32]) simp
  then have "dec_loop data (dec_px_chunks (int (length data))) chans (of_nat (k * c')) 0
          (dec_init\<lparr>idx := 14\<rparr>) = Some st"
    using st(1) by (simp add: pl_def)
  then show ?thesis using st unfolding pl_def c'_def by blast
qed

lemma dec_vars_after_eq:
  assumes l: "14 \<le> length data"
    and c: "dec_channels (hdr_desc data desc) chans = 3 \<or> dec_channels (hdr_desc data desc) chans = 4"
  shows "dec_vars_after data sz desc chans k
     = dec_loop data (dec_px_chunks sz) (dec_channels (hdr_desc data desc) chans)
         (of_nat (k * nat (dec_channels (hdr_desc data desc) chans))) 0 (dec_init\<lparr>idx := 14\<rparr>)"
proof -
  define c' where "c' = dec_channels (hdr_desc data desc) chans"
  have e: "(of_nat k * word_of_int c' :: u32) = of_nat (k * nat c')"
    using c by (auto simp: c'_def)
  show ?thesis
    unfolding dec_vars_after_def dec_header_any[OF l] using e
    by (simp add: Let_def c'_def)
qed

lemma dec_px_len_unat:
  assumes v: "\<not> enc_invalid hdd" and c: "c = 3 \<or> c = (4 :: int)"
  shows "unat (dec_px_len hdd c) = npx hdd * nat c"
proof -
  note a = enc_valid_arith[OF v]
  have "npx hdd * nat c \<le> npx hdd * 4" using c by (intro mult_le_mono2) auto
  then have "npx hdd * nat c \<le> 1600000000" using a(2) by linarith
  then have "npx hdd * nat c < 2 ^ 32" by simp
  then show ?thesis
    unfolding dec_px_len_eq[OF c] by (rule unat_of_nat_u32)
qed

lemma qoi_decode_early:
  assumes "(chans \<noteq> 0 \<and> chans \<noteq> 3 \<and> chans \<noteq> 4) \<or> sz < 22"
  shows "qoi_decode malloc data sz desc chans = Some (Inl EINVAL, desc)"
  using assms by (simp add: qoi_decode_def QOI_HEADER_SIZE_def qoi_padding_def)

lemma qoi_decode_header:
  assumes e: "\<not> ((chans \<noteq> 0 \<and> chans \<noteq> 3 \<and> chans \<noteq> 4) \<or> sz < 22)"
    and l: "14 \<le> length data" and v: "dec_invalid (hdr_u32 data 0) (hdr_desc data desc)"
  shows "qoi_decode malloc data sz desc chans = Some (Inl EINVAL, hdr_desc data desc)"
  using e v unfolding qoi_decode_def dec_header_any[OF l]
  by (auto simp: QOI_HEADER_SIZE_def qoi_padding_def)

lemma qoi_decode_short:
  assumes e: "\<not> ((chans \<noteq> 0 \<and> chans \<noteq> 3 \<and> chans \<noteq> 4) \<or> sz < 22)"
    and l: "length data < 14"
  shows "qoi_decode malloc data sz desc chans = None"
  using e unfolding qoi_decode_def dec_header_short[OF l]
  by (auto simp: QOI_HEADER_SIZE_def qoi_padding_def)

lemma qoi_decode_loop:
  assumes e: "\<not> ((chans \<noteq> 0 \<and> chans \<noteq> 3 \<and> chans \<noteq> 4) \<or> sz < 22)"
    and l: "14 \<le> length data" and v: "\<not> dec_invalid (hdr_u32 data 0) (hdr_desc data desc)"
  shows "qoi_decode malloc data sz desc chans
     = (if \<not> malloc (npx (hdr_desc data desc) * nat (dec_channels (hdr_desc data desc) chans))
        then Some (Inl ENOMEM, hdr_desc data desc)
        else Option.bind
          (dec_vars_after data sz desc chans (npx (hdr_desc data desc)))
          (\<lambda>st. Some (Inr (px st), hdr_desc data desc)))"
proof -
  let ?h = "hdr_desc data desc"
  have ve: "\<not> enc_invalid ?h" using dec_valid(1)[OF v] .
  have ch: "chans = 0 \<or> chans = 3 \<or> chans = 4" using e by auto
  have c: "dec_channels ?h chans = 3 \<or> dec_channels ?h chans = 4"
    by (rule dec_channels_3_4[OF ch enc_valid_arith(3)[OF ve]])
  have u: "unat (dec_px_len ?h (dec_channels ?h chans)) = npx ?h * nat (dec_channels ?h chans)"
    by (rule dec_px_len_unat[OF ve c])
  have pl: "dec_px_len ?h (dec_channels ?h chans) = of_nat (npx ?h * nat (dec_channels ?h chans))"
    by (rule dec_px_len_eq[OF c])
  have a: "dec_vars_after data sz desc chans (npx ?h)
     = dec_loop data (dec_px_chunks sz) (dec_channels ?h chans)
         (dec_px_len ?h (dec_channels ?h chans)) 0 (dec_init\<lparr>idx := 14\<rparr>)"
    unfolding dec_vars_after_eq[OF l c] pl ..
  show ?thesis
    using e v unfolding qoi_decode_def dec_header_any[OF l] a
    by (auto simp: QOI_HEADER_SIZE_def qoi_padding_def Let_def u)
qed

lemma dec_vars_after_safe:
  assumes l: "22 \<le> length data" and small: "length data < 2 ^ 32"
    and ch: "chans = 0 \<or> chans = 3 \<or> chans = 4"
    and v: "\<not> dec_invalid (hdr_u32 data 0) (hdr_desc data desc)"
    and k: "k \<le> npx (hdr_desc data desc)"
  shows "\<exists>st. dec_vars_after data (int (length data)) desc chans k = Some st
           \<and> iter (\<lambda>j. dec_body data (dec_px_chunks (int (length data)))
                        (dec_channels (hdr_desc data desc) chans)
                        (of_nat (k * nat (dec_channels (hdr_desc data desc) chans)))
                        (of_nat (j * nat (dec_channels (hdr_desc data desc) chans))))
                 0 k (dec_init\<lparr>idx := 14\<rparr>) = Some st
           \<and> unat (idx st) + 4 \<le> length data
           \<and> length (px st) = k * nat (dec_channels (hdr_desc data desc) chans)"
proof -
  let ?h = "hdr_desc data desc"
  have ve: "\<not> enc_invalid ?h" using dec_valid(1)[OF v] .
  have c: "dec_channels ?h chans = 3 \<or> dec_channels ?h chans = 4"
    by (rule dec_channels_3_4[OF ch enc_valid_arith(3)[OF ve]])
  have l14: "14 \<le> length data" using l by simp
  show ?thesis
    unfolding dec_vars_after_eq[OF l14 c]
    by (rule dec_loop_safe[OF l small c enc_valid_arith(2)[OF ve] k])
qed





lemma nth_concat_replicate:
  "j < n \<Longrightarrow> i < length q \<Longrightarrow> concat (replicate n q) ! (j * length q + i) = q ! i"
proof (induction n arbitrary: j)
  case 0
  then show ?case by simp
next
  case (Suc n)
  show ?case
  proof (cases j)
    case 0
    then show ?thesis using Suc.prems(2) by (simp add: nth_append)
  next
    case (Suc j')
    then have "j' < n" using Suc.prems(1) by simp
    then have "concat (replicate n q) ! (j' * length q + i) = q ! i"
      using Suc.IH Suc.prems(2) by blast
    then show ?thesis using Suc by (simp add: nth_append)
  qed
qed

lemma length_start_pixels:
  "chans = 3 \<or> chans = 4 \<Longrightarrow> length (start_pixels chans n) = n * unat chans"
  by (induction n) (auto simp: start_pixels_def)

lemma pix_start_pixels:
  assumes ch: "chans = 3 \<or> chans = 4" and j: "j < n"
  shows "pix (start_pixels chans n) chans j px_start = px_start"
proof (cases "chans = 4")
  case True
  have l: "length [0, 0, 0, 255 :: byte] = 4" by simp
  have g: "concat (replicate n [0, 0, 0, 255 :: byte]) ! (j * 4 + i) = [0, 0, 0, 255 :: byte] ! i"
    if "i < 4" for i
    using nth_concat_replicate[OF j, of i "[0, 0, 0, 255 :: byte]", unfolded l] that by blast
  have d: "concat (replicate n [0, 0, 0, 255 :: byte]) ! (j * 4) = 0"
    "concat (replicate n [0, 0, 0, 255 :: byte]) ! (j * 4 + 1) = 0"
    "concat (replicate n [0, 0, 0, 255 :: byte]) ! (j * 4 + 2) = 0"
    "concat (replicate n [0, 0, 0, 255 :: byte]) ! (j * 4 + 3) = 255"
    using g[of 0] g[of 1] g[of 2] g[of 3] by simp_all
  show ?thesis
    unfolding pix_def start_pixels_def px_start_def using True d by simp
next
  case False
  then have c3: "chans = 3" using ch by simp
  have l: "length [0, 0, 0 :: byte] = 3" by simp
  have g: "concat (replicate n [0, 0, 0 :: byte]) ! (j * 3 + i) = [0, 0, 0 :: byte] ! i"
    if "i < 3" for i
    using nth_concat_replicate[OF j, of i "[0, 0, 0 :: byte]", unfolded l] that by blast
  have d: "concat (replicate n [0, 0, 0 :: byte]) ! (j * 3) = 0"
    "concat (replicate n [0, 0, 0 :: byte]) ! (j * 3 + 1) = 0"
    "concat (replicate n [0, 0, 0 :: byte]) ! (j * 3 + 2) = 0"
    using g[of 0] g[of 1] g[of 2] by simp_all
  show ?thesis
    unfolding pix_def start_pixels_def px_start_def using c3 d by simp
qed

lemma enc_next_run:
  assumes "px_prev s = px_start" "px_curr s = px_start" "run s + 1 \<noteq> QOI_MAXIMUM_RUN"
  shows "enc_next False px_start s = s\<lparr>run := run s + 1\<rparr>"
  using assms by (cases s) (simp add: enc_next_def enc_out_def)

lemma enc_next_flush:
  assumes "px_prev s = px_start" "px_curr s = px_start" "run s + 1 = QOI_MAXIMUM_RUN \<or> fin"
  shows "enc_next fin px_start s
     = s\<lparr>idx := idx s + 1, run := 0, bytes := bytes s @ [QOI_OP_RUN OR run s]\<rparr>"
  using assms by (cases s) (auto simp: enc_next_def enc_out_def)

lemma enc_at_run:
  fixes chans :: byte
  assumes ch: "chans = 3 \<or> chans = 4"
    and s0: "px_prev s0 = px_start" "px_curr s0 = px_start" "run s0 = 0"
    and e: "\<And>j. j < k \<Longrightarrow> (of_nat (j * unat chans) :: u32) \<noteq> px_end"
    and k: "k \<le> 61" "k \<le> n"
  shows "enc_at (start_pixels chans n) chans px_end s0 k = s0\<lparr>run := of_nat k\<rparr>"
  using e k
proof (induction k)
  case 0
  then show ?case using s0 by (simp add: enc_at.simps)
next
  case (Suc k)
  let ?s = "enc_at (start_pixels chans n) chans px_end s0 k"
  have IH: "?s = s0\<lparr>run := of_nat k\<rparr>" using Suc by simp
  have kn: "k < n" using Suc.prems by simp
  have f: "(of_nat (k * unat chans) :: u32) \<noteq> px_end" using Suc.prems(1)[of k] by simp
  have "k \<le> 60" using Suc.prems by simp
  then have "unat (of_nat k + 1 :: byte) = k + 1"
    by (simp add: unat_word_ariths unat_of_nat)
  then have r: "(of_nat k + 1 :: byte) \<noteq> QOI_MAXIMUM_RUN"
    using \<open>k \<le> 60\<close> by (auto simp: QOI_MAXIMUM_RUN_def)
  have p: "pix (start_pixels chans n) chans k (px_curr ?s) = px_start"
    unfolding IH using s0(2) pix_start_pixels[OF ch kn] by simp
  have "enc_at (start_pixels chans n) chans px_end s0 (Suc k) = enc_next False px_start ?s"
    using f p by (simp add: enc_at.simps Let_def)
  also have "\<dots> = ?s\<lparr>run := run ?s + 1\<rparr>"
    by (rule enc_next_run) (use IH s0 r in simp_all)
  also have "\<dots> = s0\<lparr>run := of_nat (Suc k)\<rparr>" unfolding IH by simp
  finally show ?case .
qed

lemma px_pos_neq:
  fixes chans :: byte
  assumes ch: "chans = 3 \<or> chans = 4" and j: "j < m" and m: "m \<le> 100"
  shows "(of_nat (j * unat chans) :: u32) \<noteq> of_nat (m * unat chans)"
proof
  assume eq: "(of_nat (j * unat chans) :: u32) = of_nat (m * unat chans)"
  have u: "unat chans = 3 \<or> unat chans = 4" using ch by auto
  then have "m * unat chans \<le> 100 * 4" using m by (intro mult_le_mono) auto
  then have mb: "m * unat chans < 2 ^ 32" by simp
  have "j * unat chans \<le> m * unat chans" using j by (intro mult_le_mono1) simp
  then have jb: "j * unat chans < 2 ^ 32" using mb by linarith
  have "unat (of_nat (j * unat chans) :: u32) = unat (of_nat (m * unat chans) :: u32)"
    by (simp only: eq)
  then have "j * unat chans = m * unat chans"
    by (simp only: unat_of_nat_u32[OF jb] unat_of_nat_u32[OF mb])
  then show False using j u by auto
qed

lemma enc_start_fields:
  "px_prev (enc_start desc) = px_start" "px_curr (enc_start desc) = px_start"
  "run (enc_start desc) = 0" "bytes (enc_start desc) = qoi_header desc"
  by (simp_all add: enc_start_def enc_init_def px_start_def)

lemma run_bytes: "QOI_OP_RUN OR (61 :: byte) = 0xfd" "QOI_OP_RUN OR (0 :: byte) = 0xc0"
  "(61 :: byte) + 1 = QOI_MAXIMUM_RUN"
  by (simp_all add: QOI_OP_RUN_def QOI_MAXIMUM_RUN_def)

lemma enc_final_62:
  assumes v: "\<not> enc_invalid desc" and n: "npx desc = 62"
  shows "bytes (enc_final (start_pixels (channels desc) 62) desc) = qoi_header desc @ [0xfd]"
proof -
  let ?c = "channels desc" and ?d = "start_pixels (channels desc) 62"
  note a = enc_valid_arith[OF v]
  have pe: "enc_px_end desc = of_nat (61 * unat ?c)"
    using enc_px_end_eq[OF a(1)] n by simp
  have e: "(of_nat (j * unat ?c) :: u32) \<noteq> enc_px_end desc" if "j < 61" for j
    unfolding pe by (rule px_pos_neq[OF a(3) that]) simp
  have s61: "enc_at ?d ?c (enc_px_end desc) (enc_start desc) 61 = (enc_start desc)\<lparr>run := of_nat 61\<rparr>"
    by (rule enc_at_run[OF a(3) enc_start_fields(1,2,3) e]) simp_all
  have p: "pix ?d ?c 61 px_start = px_start"
    by (rule pix_start_pixels[OF a(3)]) simp
  have "enc_at ?d ?c (enc_px_end desc) (enc_start desc) (Suc 61)
      = enc_next True px_start ((enc_start desc)\<lparr>run := of_nat 61\<rparr>)"
    unfolding enc_at.simps s61 Let_def using p pe by (simp add: enc_start_fields)
  also have "\<dots> = ((enc_start desc)\<lparr>run := of_nat 61\<rparr>)\<lparr>idx := idx ((enc_start desc)\<lparr>run := of_nat 61\<rparr>) + 1,
        run := 0,
        bytes := bytes ((enc_start desc)\<lparr>run := of_nat 61\<rparr>)
                   @ [QOI_OP_RUN OR run ((enc_start desc)\<lparr>run := of_nat 61\<rparr>)]\<rparr>"
    by (rule enc_next_flush) (simp_all add: enc_start_fields)
  finally have "bytes (enc_at ?d ?c (enc_px_end desc) (enc_start desc) (Suc 61))
      = qoi_header desc @ [QOI_OP_RUN OR 61]"
    by (simp add: enc_start_fields)
  then show ?thesis
    unfolding enc_final_def n run_bytes by simp
qed

lemma enc_final_63:
  assumes v: "\<not> enc_invalid desc" and n: "npx desc = 63"
  shows "bytes (enc_final (start_pixels (channels desc) 63) desc) = qoi_header desc @ [0xfd, 0xc0]"
proof -
  let ?c = "channels desc" and ?d = "start_pixels (channels desc) 63"
  let ?s61 = "(enc_start desc)\<lparr>run := of_nat 61\<rparr>"
  let ?s62 = "?s61\<lparr>idx := idx ?s61 + 1, run := 0, bytes := bytes ?s61 @ [QOI_OP_RUN OR run ?s61]\<rparr>"
  note a = enc_valid_arith[OF v]
  have pe: "enc_px_end desc = of_nat (62 * unat ?c)"
    using enc_px_end_eq[OF a(1)] n by simp
  have e: "(of_nat (j * unat ?c) :: u32) \<noteq> enc_px_end desc" if "j < 62" for j
    unfolding pe by (rule px_pos_neq[OF a(3) that]) simp
  have s61: "enc_at ?d ?c (enc_px_end desc) (enc_start desc) 61 = ?s61"
    by (rule enc_at_run[OF a(3) enc_start_fields(1,2,3) e]) simp_all
  have p61: "pix ?d ?c 61 px_start = px_start"
    by (rule pix_start_pixels[OF a(3)]) simp
  have p62: "pix ?d ?c 62 px_start = px_start"
    by (rule pix_start_pixels[OF a(3)]) simp
  have "enc_at ?d ?c (enc_px_end desc) (enc_start desc) (Suc 61) = enc_next False px_start ?s61"
    unfolding enc_at.simps s61 Let_def using p61 e[of 61] by (simp add: enc_start_fields)
  also have "\<dots> = ?s62"
    by (rule enc_next_flush) (simp_all add: enc_start_fields QOI_MAXIMUM_RUN_def)
  finally have s62: "enc_at ?d ?c (enc_px_end desc) (enc_start desc) 62 = ?s62" by simp
  have "enc_at ?d ?c (enc_px_end desc) (enc_start desc) (Suc 62) = enc_next True px_start ?s62"
    unfolding enc_at.simps s62 Let_def using p62 pe by (simp add: enc_start_fields)
  also have "\<dots> = ?s62\<lparr>idx := idx ?s62 + 1, run := 0, bytes := bytes ?s62 @ [QOI_OP_RUN OR run ?s62]\<rparr>"
    by (rule enc_next_flush) (simp_all add: enc_start_fields)
  finally have "bytes (enc_at ?d ?c (enc_px_end desc) (enc_start desc) (Suc 62))
      = qoi_header desc @ [QOI_OP_RUN OR 61, QOI_OP_RUN OR 0]"
    by (simp add: enc_start_fields)
  then show ?thesis
    unfolding enc_final_def n run_bytes by simp
qed

section \<open>The claims\<close>

subsection \<open>C1\<close>

text \<open>
  C1, as stated: every pixel buffer with a positive width and height, 3 or 4 channels, a
  colour space of at most 1 and a pixel count within the cap of 400 000 000 survives
  encoding and decoding. This fails at the cap: an image 3 pixels wide and 133 333 333
  pixels high has 399 999 999 pixels, which is within the cap and not malformed, but
  \<^verbatim>\<open>qoi_encode\<close> refuses it with \<^verbatim>\<open>EINVAL\<close> for every pixel buffer and every allocator,
  so there is no stream to decode.
\<close>

theorem qoi_roundtrip_refused_below_cap:
  "unat (width \<lparr>width = 3, height = 133333333, channels = 3, colorspace = 0\<rparr>)
     * unat (height \<lparr>width = 3, height = 133333333, channels = 3, colorspace = 0\<rparr>) \<le> 400000000
   \<and> \<not> spec_malformed \<lparr>width = 3, height = 133333333, channels = 3, colorspace = 0\<rparr>
   \<and> (\<forall>malloc data.
         qoi_encode malloc data \<lparr>width = 3, height = 133333333, channels = 3, colorspace = 0\<rparr>
           = Some (Inl EINVAL))"
  by (simp add: qoi_encode_def enc_invalid_def spec_malformed_def qoi_consts word_le_nat_alt unat_div)

text \<open>
  C1, amended: the round trip holds when the pixel cap is the one the encoder tests, the
  height being below the integer quotient of 400 000 000 by the width. Take a descriptor
  with a positive width and height, 3 or 4 channels, a colour space of at most 1 and such
  a height, and a pixel buffer of width * height * channels bytes, and let both
  allocations succeed. Then \<^verbatim>\<open>qoi_encode\<close> returns a stream and its size, and
  \<^verbatim>\<open>qoi_decode\<close> of that stream, asked for the descriptor's channel count (or for 0,
  which selects it), returns the pixel buffer byte for byte and leaves the encoder's
  descriptor in the caller's descriptor, whatever that held before.
\<close>

theorem qoi_roundtrip:
  assumes "width desc \<noteq> 0" and "height desc \<noteq> 0"
    and "channels desc = 3 \<or> channels desc = 4" and "colorspace desc \<le> 1"
    and "unat (height desc) < 400000000 div unat (width desc)"
    and "length data = unat (width desc) * unat (height desc) * unat (channels desc)"
    and "malloc (enc_size desc)" and "malloc (length data)"
    and "chans = 0 \<or> chans = uint (channels desc)"
  shows "\<exists>stream sz. qoi_encode malloc data desc = Some (Inr (stream, sz))
           \<and> sz = int (length stream)
           \<and> qoi_decode malloc stream sz d0 chans = Some (Inr data, desc)"
proof -
  have "\<not> height desc \<ge> QOI_MAXIMUM_PIXELS div width desc"
    using cap_check[OF assms(1)] assms(5) by simp
  moreover have "\<not> colorspace desc > 1"
    using assms(4) by simp
  ultimately have v: "\<not> enc_invalid desc"
    using assms(1,2,3) by (simp add: enc_invalid_def)
  have len: "length data = npx desc * unat (channels desc)"
    using assms(6) by (simp add: npx_def)
  have "qoi_encode malloc data desc
     = Some (Inr (enc_stream data desc, int (length (enc_stream data desc))))"
    using qoi_encode_eq(1)[where malloc = malloc, OF v assms(7) len]
    by (simp add: enc_stream_def length_enc_stream qoi_padding_def)
  moreover have "qoi_decode malloc (enc_stream data desc) (int (length (enc_stream data desc))) d0 chans
      = Some (Inr data, desc)"
    by (rule qoi_decode_enc[where malloc = malloc, OF v len assms(8,9)])
  ultimately show ?thesis by blast
qed

theorem qoi_roundtrip_witness:
  "\<exists>stream sz.
     qoi_encode (\<lambda>n. True) [0, 0, 0, 5, 5, 5]
         \<lparr>width = 2, height = 1, channels = 3, colorspace = 0\<rparr> = Some (Inr (stream, sz))
     \<and> sz = int (length stream)
     \<and> qoi_decode (\<lambda>n. True) stream sz
         \<lparr>width = 0, height = 0, channels = 0, colorspace = 0\<rparr> 3
       = Some (Inr [0, 0, 0, 5, 5, 5], \<lparr>width = 2, height = 1, channels = 3, colorspace = 0\<rparr>)"
proof (rule qoi_roundtrip)
  show "length [0, 0, 0, 5, 5, 5 :: byte]
      = unat (width \<lparr>width = 2, height = 1, channels = 3, colorspace = 0\<rparr>)
        * unat (height \<lparr>width = 2, height = 1, channels = 3, colorspace = 0\<rparr>)
        * unat (channels \<lparr>width = 2, height = 1, channels = 3, colorspace = 0\<rparr>)"
    by simp
  show "(3 :: int) = 0 \<or> 3 = uint (channels \<lparr>width = 2, height = 1, channels = 3, colorspace = 0\<rparr>)"
    by simp
qed simp_all

subsection \<open>C2\<close>




subsection \<open>C3\<close>

text \<open>
  C3, as stated: \<^verbatim>\<open>qoi_encode\<close> reports \<^verbatim>\<open>EINVAL\<close> exactly for the malformed descriptors,
  the cap being exceeded when height * width is above 400 000 000. This fails: a 1 by
  400 000 000 image has exactly 400 000 000 pixels, which does not exceed the cap, and is
  refused all the same.
\<close>

theorem qoi_encode_EINVAL_not_spec_malformed:
  "\<not> (qoi_encode (\<lambda>n. True) [] \<lparr>width = 1, height = 400000000, channels = 4, colorspace = 0\<rparr>
          = Some (Inl EINVAL)
        \<longleftrightarrow> spec_malformed \<lparr>width = 1, height = 400000000, channels = 4, colorspace = 0\<rparr>)"
  by (simp add: qoi_encode_def enc_invalid_def spec_malformed_def qoi_consts)

text \<open>
  C3, amended: \<^verbatim>\<open>qoi_encode\<close> reports \<^verbatim>\<open>EINVAL\<close> if and only if the width or the height
  is zero, the channel count is neither 3 nor 4, the colour space exceeds 1, or the height
  is at least the integer quotient of 400 000 000 by the width. For every other descriptor
  it does not report \<^verbatim>\<open>EINVAL\<close>, whatever the pixel data and the allocator do.
\<close>

theorem qoi_encode_EINVAL_iff:
  "qoi_encode malloc data desc = Some (Inl EINVAL) \<longleftrightarrow>
     width desc = 0 \<or> height desc = 0 \<or> (channels desc \<noteq> 3 \<and> channels desc \<noteq> 4)
     \<or> colorspace desc > 1 \<or> 400000000 div unat (width desc) \<le> unat (height desc)"
proof (cases "enc_invalid desc")
  case True
  then have "qoi_encode malloc data desc = Some (Inl EINVAL)"
    by (simp add: qoi_encode_def)
  moreover from True [unfolded enc_invalid_def]
  have "width desc = 0 \<or> height desc = 0 \<or> (channels desc \<noteq> 3 \<and> channels desc \<noteq> 4)
     \<or> colorspace desc > 1 \<or> 400000000 div unat (width desc) \<le> unat (height desc)"
    using cap_check[of desc] by blast
  ultimately show ?thesis by simp
next
  case False
  then have "qoi_encode malloc data desc \<noteq> Some (Inl EINVAL)"
    by (auto simp: qoi_encode_def Let_def bind_eq_Some_conv)
  moreover from False [unfolded enc_invalid_def]
  have "\<not> (width desc = 0 \<or> height desc = 0 \<or> (channels desc \<noteq> 3 \<and> channels desc \<noteq> 4)
     \<or> colorspace desc > 1 \<or> 400000000 div unat (width desc) \<le> unat (height desc))"
    using cap_check[of desc] by blast
  ultimately show ?thesis by simp
qed

subsection \<open>C4\<close>

text \<open>
  C4, as stated: whenever \<^verbatim>\<open>qoi_decode\<close> fails, the caller's descriptor is left as it
  was. This fails for a magic mismatch: the 22 bytes below are a header with the last
  magic byte wrong, followed by the padding. \<^verbatim>\<open>qoi_decode\<close> stores the four header
  fields in the descriptor (lines 252 to 255) before it tests them (line 257), so it
  reports \<^verbatim>\<open>EINVAL\<close> and the descriptor, all zero before the call, holds 5, 7, 3 and 1.
\<close>

theorem qoi_decode_failure_overwrites_desc:
  "qoi_decode (\<lambda>n. True)
       [0x71, 0x6f, 0x69, 0x67, 0, 0, 0, 5, 0, 0, 0, 7, 3, 1, 0, 0, 0, 0, 0, 0, 0, 1] 22
       \<lparr>width = 0, height = 0, channels = 0, colorspace = 0\<rparr> 0
     = Some (Inl EINVAL, \<lparr>width = 5, height = 7, channels = 3, colorspace = 1\<rparr>)
   \<and> \<lparr>width = 5, height = 7, channels = 3, colorspace = 1\<rparr>
       \<noteq> \<lparr>width = 0, height = 0, channels = 0, colorspace = (0 :: byte)\<rparr>"
  by (simp add: qoi_decode_def dec_header_def qoi_read_32_def rd_def dec_invalid_def qoi_consts
      qoi_padding_def)

text \<open>
  C4, amended: when the target channel count is not 0, 3 or 4, or the size is below 22,
  \<^verbatim>\<open>qoi_decode\<close> reports \<^verbatim>\<open>EINVAL\<close> and leaves the caller's descriptor as it was. When
  that test passes and the header is refused (magic mismatch, zero width or height,
  channels not 3 or 4, colour space above 1, height at least 400 000 000 div width),
  it reports \<^verbatim>\<open>EINVAL\<close> and the descriptor holds the width, height, channels and colour
  space read from the header. In every failure, the allocation failure included, the
  descriptor is unchanged exactly in the first case and holds the header's fields
  otherwise.
\<close>

theorem qoi_decode_failure_desc:
  "((chans \<noteq> 0 \<and> chans \<noteq> 3 \<and> chans \<noteq> 4) \<or> sz < 22
      \<longrightarrow> qoi_decode malloc data sz desc chans = Some (Inl EINVAL, desc))
   \<and> (\<not> ((chans \<noteq> 0 \<and> chans \<noteq> 3 \<and> chans \<noteq> 4) \<or> sz < 22) \<and> 14 \<le> length data
        \<and> dec_invalid (hdr_u32 data 0) (hdr_desc data desc)
      \<longrightarrow> qoi_decode malloc data sz desc chans = Some (Inl EINVAL, hdr_desc data desc))
   \<and> (\<forall>e desc'. qoi_decode malloc data sz desc chans = Some (Inl e, desc')
      \<longrightarrow> (if (chans \<noteq> 0 \<and> chans \<noteq> 3 \<and> chans \<noteq> 4) \<or> sz < 22
           then e = EINVAL \<and> desc' = desc else desc' = hdr_desc data desc))"
proof (intro conjI impI allI)
  assume "(chans \<noteq> 0 \<and> chans \<noteq> 3 \<and> chans \<noteq> 4) \<or> sz < 22"
  then show "qoi_decode malloc data sz desc chans = Some (Inl EINVAL, desc)"
    by (rule qoi_decode_early)
next
  assume "\<not> ((chans \<noteq> 0 \<and> chans \<noteq> 3 \<and> chans \<noteq> 4) \<or> sz < 22) \<and> 14 \<le> length data
        \<and> dec_invalid (hdr_u32 data 0) (hdr_desc data desc)"
  then show "qoi_decode malloc data sz desc chans = Some (Inl EINVAL, hdr_desc data desc)"
    using qoi_decode_header by blast
next
  fix e desc'
  assume f: "qoi_decode malloc data sz desc chans = Some (Inl e, desc')"
  show "if (chans \<noteq> 0 \<and> chans \<noteq> 3 \<and> chans \<noteq> 4) \<or> sz < 22
        then e = EINVAL \<and> desc' = desc else desc' = hdr_desc data desc"
  proof (cases "(chans \<noteq> 0 \<and> chans \<noteq> 3 \<and> chans \<noteq> 4) \<or> sz < 22")
    case True
    then show ?thesis using f qoi_decode_early[OF True, of malloc data desc] by simp
  next
    case False
    have l: "14 \<le> length data"
    proof (rule ccontr)
      assume "\<not> 14 \<le> length data"
      then have "length data < 14" by simp
      then show False using qoi_decode_short[OF False, of data malloc desc] f by simp
    qed
    have "desc' = hdr_desc data desc"
    proof (cases "dec_invalid (hdr_u32 data 0) (hdr_desc data desc)")
      case True
      then show ?thesis using f qoi_decode_header[OF False l True, of malloc] by simp
    next
      case v: False
      show ?thesis
        using f unfolding qoi_decode_loop[OF False l v]
        by (auto simp: bind_eq_Some_conv split: if_splits)
    qed
    then show ?thesis using False by auto
  qed
qed

theorem qoi_decode_failure_desc_witness:
  "qoi_decode (\<lambda>n. True) [] 0 \<lparr>width = 9, height = 9, channels = 9, colorspace = 9\<rparr> 5
     = Some (Inl EINVAL, \<lparr>width = 9, height = 9, channels = 9, colorspace = 9\<rparr>)
   \<and> qoi_decode (\<lambda>n. True)
       [0x71, 0x6f, 0x69, 0x66, 0, 0, 0, 0, 0, 0, 0, 7, 3, 1, 0, 0, 0, 0, 0, 0, 0, 1] 22
       \<lparr>width = 9, height = 9, channels = 9, colorspace = 9\<rparr> 3
     = Some (Inl EINVAL, \<lparr>width = 0, height = 7, channels = 3, colorspace = 1\<rparr>)"
proof -
  let ?d = "\<lparr>width = 9, height = 9, channels = 9, colorspace = 9 :: byte\<rparr>"
  let ?b = "[0x71, 0x6f, 0x69, 0x66, 0, 0, 0, 0, 0, 0, 0, 7, 3, 1, 0, 0, 0, 0, 0, 0, 0, 1 :: byte]"
  have h: "hdr_desc ?b ?d = \<lparr>width = 0, height = 7, channels = 3, colorspace = 1\<rparr>"
    by (simp add: hdr_desc_def hdr_u32_def)
  have i: "dec_invalid (hdr_u32 ?b 0) (hdr_desc ?b ?d)"
    unfolding h by (simp add: dec_invalid_def)
  have a: "qoi_decode (\<lambda>n. True) [] 0 ?d 5 = Some (Inl EINVAL, ?d)"
    by (rule qoi_decode_failure_desc[of 5 0 "\<lambda>n. True" "[]" ?d, THEN conjunct1, THEN mp]) simp
  have b: "qoi_decode (\<lambda>n. True) ?b 22 ?d 3 = Some (Inl EINVAL, hdr_desc ?b ?d)"
    by (rule qoi_decode_failure_desc[of 3 22 "\<lambda>n. True" ?b ?d, THEN conjunct2, THEN conjunct1, THEN mp])
      (simp add: i)
  show ?thesis using a b unfolding h by (rule conjI)
qed

subsection \<open>C5\<close>

text \<open>
  C5, the framing. For a descriptor that \<^verbatim>\<open>qoi_encode\<close> accepts and a pixel buffer of
  width * height * channels bytes, with the allocation succeeding, the stream returned
  starts with the 14 bytes of the header (the magic bytes 71 6F 69 66, the width and the
  height with the most significant byte first, the channel count, the colour space) and
  its last 8 bytes are 00 00 00 00 00 00 00 01.
\<close>

theorem qoi_encode_framing:
  assumes "\<not> enc_invalid desc"
    and "length data = unat (width desc) * unat (height desc) * unat (channels desc)"
    and "malloc (enc_size desc)"
  shows "\<exists>stream sz. qoi_encode malloc data desc = Some (Inr (stream, sz))
           \<and> 22 \<le> length stream
           \<and> take 14 stream =
               [0x71, 0x6f, 0x69, 0x66,
                ucast (drop_bit 24 (width desc)), ucast (drop_bit 16 (width desc)),
                ucast (drop_bit 8 (width desc)), ucast (width desc),
                ucast (drop_bit 24 (height desc)), ucast (drop_bit 16 (height desc)),
                ucast (drop_bit 8 (height desc)), ucast (height desc),
                channels desc, colorspace desc]
           \<and> drop (length stream - 8) stream = [0, 0, 0, 0, 0, 0, 0, 1]"
proof -
  have len: "length data = npx desc * unat (channels desc)"
    using assms(2) by (simp add: npx_def)
  have e: "qoi_encode malloc data desc
     = Some (Inr (enc_stream data desc, int (length (enc_stream data desc))))"
    using qoi_encode_eq(1)[where malloc = malloc, OF assms(1,3) len]
    by (simp add: enc_stream_def length_enc_stream qoi_padding_def)
  obtain rest where rest: "enc_stream data desc = qoi_header desc @ rest"
    using enc_stream_header(1) by blast
  have "take 14 (enc_stream data desc) = qoi_header desc"
    unfolding rest by simp
  then have h: "take 14 (enc_stream data desc) =
               [0x71, 0x6f, 0x69, 0x66,
                ucast (drop_bit 24 (width desc)), ucast (drop_bit 16 (width desc)),
                ucast (drop_bit 8 (width desc)), ucast (width desc),
                ucast (drop_bit 24 (height desc)), ucast (drop_bit 16 (height desc)),
                ucast (drop_bit 8 (height desc)), ucast (height desc),
                channels desc, colorspace desc]"
    by (simp only: qoi_header_bytes)
  have t: "drop (length (enc_stream data desc) - 8) (enc_stream data desc) = [0, 0, 0, 0, 0, 0, 0, 1]"
    by (simp add: enc_stream_def qoi_padding_def)
  show ?thesis using e h t enc_stream_header(2)[of data desc] by blast
qed

theorem qoi_encode_framing_witness:
  "\<exists>stream sz.
     qoi_encode (\<lambda>n. True) [10, 20, 30] \<lparr>width = 1, height = 1, channels = 3, colorspace = 1\<rparr>
       = Some (Inr (stream, sz))
     \<and> 22 \<le> length stream
     \<and> take 14 stream = [0x71, 0x6f, 0x69, 0x66, 0, 0, 0, 1, 0, 0, 0, 1, 3, 1]
     \<and> drop (length stream - 8) stream = [0, 0, 0, 0, 0, 0, 0, 1]"
proof -
  have "\<not> enc_invalid \<lparr>width = 1, height = 1, channels = 3, colorspace = 1\<rparr>"
    by (simp add: enc_invalid_def QOI_MAXIMUM_PIXELS_def word_le_nat_alt unat_div)
  from qoi_encode_framing[OF this, of "[10, 20, 30]" "\<lambda>n. True"]
  show ?thesis by simp
qed

subsection \<open>C6\<close>

text \<open>
  C6, the capacity of the output buffer. For a descriptor that \<^verbatim>\<open>qoi_encode\<close> accepts the
  size computed in lines 78 and 79 does not wrap: it is width * height * (channels + 1)
  + 14 + 8. With a pixel buffer of width * height * channels bytes and the allocation
  succeeding, \<^verbatim>\<open>qoi_encode\<close> returns a stream: no store of the run fell outside the
  buffer, since \<open>wr\<close> has a result only for a store below the capacity. The size returned
  is the number of bytes stored and is at most the capacity.
\<close>

theorem qoi_encode_capacity:
  assumes "\<not> enc_invalid desc"
    and "length data = unat (width desc) * unat (height desc) * unat (channels desc)"
    and "malloc (enc_size desc)"
  shows "enc_size desc = unat (width desc) * unat (height desc) * (unat (channels desc) + 1) + 14 + 8
         \<and> (\<exists>stream sz. qoi_encode malloc data desc = Some (Inr (stream, sz))
                \<and> sz = int (length stream) \<and> length stream \<le> enc_size desc)"
proof -
  have len: "length data = npx desc * unat (channels desc)"
    using assms(2) by (simp add: npx_def)
  have e: "qoi_encode malloc data desc
     = Some (Inr (enc_stream data desc, int (length (enc_stream data desc))))"
    using qoi_encode_eq(1)[where malloc = malloc, OF assms(1,3) len]
    by (simp add: enc_stream_def length_enc_stream qoi_padding_def)
  have "length (enc_stream data desc) \<le> enc_size desc"
    using qoi_encode_eq(2)[where malloc = malloc, OF assms(1,3) len] by (simp add: length_enc_stream)
  moreover have "enc_size desc = unat (width desc) * unat (height desc) * (unat (channels desc) + 1) + 14 + 8"
    using enc_size_eq[OF assms(1)] by (simp add: npx_def)
  ultimately show ?thesis using e by blast
qed

theorem qoi_encode_capacity_witness:
  "enc_size \<lparr>width = 2, height = 1, channels = 4, colorspace = 0\<rparr> = 2 * 1 * (4 + 1) + 14 + 8
   \<and> (\<exists>stream sz.
         qoi_encode (\<lambda>n. True) [1, 2, 3, 4, 200, 100, 50, 25]
             \<lparr>width = 2, height = 1, channels = 4, colorspace = 0\<rparr> = Some (Inr (stream, sz))
         \<and> sz = int (length stream)
         \<and> length stream \<le> enc_size \<lparr>width = 2, height = 1, channels = 4, colorspace = 0\<rparr>)"
proof -
  have "\<not> enc_invalid \<lparr>width = 2, height = 1, channels = 4, colorspace = 0\<rparr>"
    by (simp add: enc_invalid_def QOI_MAXIMUM_PIXELS_def word_le_nat_alt unat_div)
  from qoi_encode_capacity[OF this, of "[1, 2, 3, 4, 200, 100, 50, 25]" "\<lambda>n. True"]
  show ?thesis by auto
qed

subsection \<open>C7\<close>

text \<open>
  C7, as stated: an image of 62 identical pixels encodes with the single chunk byte FD.
  This fails for 62 pixels (0, 0, 0, 0) with 4 channels. The first pixel differs from the
  initial previous pixel (0, 0, 0, 255), so it gets a chunk of its own, the index byte 00,
  and the 61 pixels after it form a run whose byte is FC. The chunks are 00 FC.
\<close>

theorem qoi_encode_62_zero_pixels:
  "qoi_encode (\<lambda>n. True) (replicate 248 0) \<lparr>width = 62, height = 1, channels = 4, colorspace = 0\<rparr>
     = Some (Inr ([0x71, 0x6f, 0x69, 0x66, 0, 0, 0, 62, 0, 0, 0, 1, 4, 0]
                  @ [0x00, 0xfc] @ [0, 0, 0, 0, 0, 0, 0, 1], 24))"
  by code_simp

text \<open>
  C7, amended: the run caps hold for the pixels equal to the initial previous pixel
  (0, 0, 0, 255). Take a descriptor that \<^verbatim>\<open>qoi_encode\<close> accepts and the pixel buffer in
  which every pixel is 0, 0, 0, 255 (4 channels) or 0, 0, 0 (3 channels), and let the
  allocation succeed. If the image has 62 pixels, the stream is the header, the one byte
  FD (a run of 62, stored with a bias of -1) and the padding. If it has 63 pixels, the
  chunks are FD followed by C0, a second run of length 1.
\<close>

theorem qoi_encode_start_pixel_runs:
  assumes "\<not> enc_invalid desc" and "malloc (enc_size desc)"
    and "data = concat (replicate (unat (width desc) * unat (height desc))
                  (if channels desc = 4 then [0, 0, 0, 255] else [0, 0, 0]))"
  shows "(unat (width desc) * unat (height desc) = 62 \<longrightarrow>
           qoi_encode malloc data desc
             = Some (Inr ([0x71, 0x6f, 0x69, 0x66,
                           ucast (drop_bit 24 (width desc)), ucast (drop_bit 16 (width desc)),
                           ucast (drop_bit 8 (width desc)), ucast (width desc),
                           ucast (drop_bit 24 (height desc)), ucast (drop_bit 16 (height desc)),
                           ucast (drop_bit 8 (height desc)), ucast (height desc),
                           channels desc, colorspace desc]
                          @ [0xfd] @ [0, 0, 0, 0, 0, 0, 0, 1], 23)))
       \<and> (unat (width desc) * unat (height desc) = 63 \<longrightarrow>
           qoi_encode malloc data desc
             = Some (Inr ([0x71, 0x6f, 0x69, 0x66,
                           ucast (drop_bit 24 (width desc)), ucast (drop_bit 16 (width desc)),
                           ucast (drop_bit 8 (width desc)), ucast (width desc),
                           ucast (drop_bit 24 (height desc)), ucast (drop_bit 16 (height desc)),
                           ucast (drop_bit 8 (height desc)), ucast (height desc),
                           channels desc, colorspace desc]
                          @ [0xfd, 0xc0] @ [0, 0, 0, 0, 0, 0, 0, 1], 24)))"
proof -
  note a = enc_valid_arith[OF assms(1)]
  have d: "data = start_pixels (channels desc) (npx desc)"
    using assms(3) by (simp add: start_pixels_def npx_def)
  have len: "length data = npx desc * unat (channels desc)"
    unfolding d by (rule length_start_pixels[OF a(3)])
  have enc: "qoi_encode malloc data desc
     = Some (Inr (bytes (enc_final data desc) @ qoi_padding,
                  int (length (bytes (enc_final data desc)) + 8)))"
    by (rule qoi_encode_eq(1)[where malloc = malloc, OF assms(1,2) len])
  have r62: "qoi_encode malloc data desc
             = Some (Inr (qoi_header desc @ [0xfd] @ [0, 0, 0, 0, 0, 0, 0, 1], 23))"
    if n: "npx desc = 62"
  proof -
    have "bytes (enc_final data desc) = qoi_header desc @ [0xfd]"
      using enc_final_62[OF assms(1) n] d n by simp
    then show ?thesis unfolding enc by (simp add: qoi_padding_def)
  qed
  have r63: "qoi_encode malloc data desc
             = Some (Inr (qoi_header desc @ [0xfd, 0xc0] @ [0, 0, 0, 0, 0, 0, 0, 1], 24))"
    if n: "npx desc = 63"
  proof -
    have "bytes (enc_final data desc) = qoi_header desc @ [0xfd, 0xc0]"
      using enc_final_63[OF assms(1) n] d n by simp
    then show ?thesis unfolding enc by (simp add: qoi_padding_def)
  qed
  show ?thesis
    using r62 r63 unfolding qoi_header_bytes npx_def by blast
qed

theorem qoi_encode_start_pixel_runs_witness:
  "qoi_encode (\<lambda>n. True) (concat (replicate 62 [0, 0, 0, 255]))
       \<lparr>width = 62, height = 1, channels = 4, colorspace = 0\<rparr>
     = Some (Inr ([0x71, 0x6f, 0x69, 0x66, 0, 0, 0, 62, 0, 0, 0, 1, 4, 0, 0xfd,
                   0, 0, 0, 0, 0, 0, 0, 1], 23))
   \<and> qoi_encode (\<lambda>n. True) (concat (replicate 63 [0, 0, 0]))
       \<lparr>width = 9, height = 7, channels = 3, colorspace = 1\<rparr>
     = Some (Inr ([0x71, 0x6f, 0x69, 0x66, 0, 0, 0, 9, 0, 0, 0, 7, 3, 1, 0xfd, 0xc0,
                   0, 0, 0, 0, 0, 0, 0, 1], 24))"
proof -
  let ?d1 = "\<lparr>width = 62, height = 1, channels = 4, colorspace = 0 :: byte\<rparr>"
  let ?d2 = "\<lparr>width = 9, height = 7, channels = 3, colorspace = 1 :: byte\<rparr>"
  have v1: "\<not> enc_invalid ?d1"
    by (simp add: enc_invalid_def QOI_MAXIMUM_PIXELS_def word_le_nat_alt unat_div)
  have v2: "\<not> enc_invalid ?d2"
    by (simp add: enc_invalid_def QOI_MAXIMUM_PIXELS_def word_le_nat_alt unat_div)
  have e1: "concat (replicate 62 [0, 0, 0, 255 :: byte])
      = concat (replicate (unat (width ?d1) * unat (height ?d1))
                  (if channels ?d1 = 4 then [0, 0, 0, 255] else [0, 0, 0]))"
    by simp
  have e2: "concat (replicate 63 [0, 0, 0 :: byte])
      = concat (replicate (unat (width ?d2) * unat (height ?d2))
                  (if channels ?d2 = 4 then [0, 0, 0, 255] else [0, 0, 0]))"
    by simp
  have n1: "unat (width ?d1) * unat (height ?d1) = 62" by simp
  have n2: "unat (width ?d2) * unat (height ?d2) = 63" by simp
  note t1 = qoi_encode_start_pixel_runs[where malloc = "\<lambda>n. True", OF v1 TrueI e1,
      THEN conjunct1, THEN mp, OF n1]
  note t2 = qoi_encode_start_pixel_runs[where malloc = "\<lambda>n. True", OF v2 TrueI e2,
      THEN conjunct2, THEN mp, OF n2]
  have h1: "qoi_encode (\<lambda>n. True) (concat (replicate 62 [0, 0, 0, 255])) ?d1
     = Some (Inr ([0x71, 0x6f, 0x69, 0x66, 0, 0, 0, 62, 0, 0, 0, 1, 4, 0, 0xfd,
                   0, 0, 0, 0, 0, 0, 0, 1], 23))"
    unfolding t1 by simp
  have h2: "qoi_encode (\<lambda>n. True) (concat (replicate 63 [0, 0, 0])) ?d2
     = Some (Inr ([0x71, 0x6f, 0x69, 0x66, 0, 0, 0, 9, 0, 0, 0, 7, 3, 1, 0xfd, 0xc0,
                   0, 0, 0, 0, 0, 0, 0, 1], 24))"
    unfolding t2 by simp
  show ?thesis using h1 h2 by (rule conjI)
qed

subsection \<open>C8\<close>

text \<open>
  C8: the 1 by 1 image with four channels whose pixel is (0, 0, 0, 0) is encoded as the
  header, the single chunk byte 0x00 and the padding. The byte is \<^verbatim>\<open>QOI_OP_INDEX\<close> for the
  slot \<open>qoi_hash (0, 0, 0, 0) = 0\<close>: the pixel differs from the initial previous pixel
  (0, 0, 0, 255), and slot 0 of the zeroed hash table already holds it.
\<close>

theorem qoi_encode_zero_pixel:
  "malloc 27 \<Longrightarrow> cs \<le> 1 \<Longrightarrow>
   qoi_hash \<lparr>rgba_r = 0, rgba_g = 0, rgba_b = 0, rgba_a = 0\<rparr> = 0
   \<and> QOI_OP_INDEX OR qoi_hash \<lparr>rgba_r = 0, rgba_g = 0, rgba_b = 0, rgba_a = 0\<rparr> = 0x00
   \<and> qoi_encode malloc [0, 0, 0, 0] \<lparr>width = 1, height = 1, channels = 4, colorspace = cs\<rparr>
      = Some (Inr ([0x71, 0x6f, 0x69, 0x66, 0, 0, 0, 1, 0, 0, 0, 1, 4, cs]
                   @ [QOI_OP_INDEX OR qoi_hash \<lparr>rgba_r = 0, rgba_g = 0, rgba_b = 0, rgba_a = 0\<rparr>]
                   @ [0, 0, 0, 0, 0, 0, 0, 1], 23))"
  by (simp add: qoi_encode_def enc_invalid_def enc_size_def enc_header_def enc_init_def
      enc_px_len_def enc_px_end_def qoi_consts emit_def wr_def enc_loop.simps enc_body_def
      enc_chunk_def load_px_def rd_def qoi_hash_def qoi_write_32_def Let_def
      word_le_nat_alt word_less_nat_alt)

theorem qoi_encode_zero_pixel_witness:
  "qoi_encode (\<lambda>n. True) [0, 0, 0, 0] \<lparr>width = 1, height = 1, channels = 4, colorspace = 0\<rparr>
     = Some (Inr ([0x71, 0x6f, 0x69, 0x66, 0, 0, 0, 1, 0, 0, 0, 1, 4, 0, 0,
                   0, 0, 0, 0, 0, 0, 0, 1], 23))"
  using qoi_encode_zero_pixel [of "\<lambda>n. True" 0] by (simp add: qoi_consts)

subsection \<open>C9\<close>



subsection \<open>C10\<close>

text \<open>
  C10, the reads of the decoder. In the embedding a read outside the buffer has no
  result, so a result of \<^verbatim>\<open>qoi_decode\<close> means that every byte was read at an index
  below the size. Let the size passed be the length of the buffer (it fits an
  \<^verbatim>\<open>int\<close>). Then \<^verbatim>\<open>qoi_decode\<close> has a result, whatever the buffer holds. When moreover
  the buffer has at least 22 bytes, the target channel count is 0, 3 or 4 and the header
  is accepted, then after every number of pixels up to width * height the loop has a
  result too, and its read position is at most the size minus 4: the chunks end at the
  size minus 8, so no read goes further than 4 bytes into the padding.
\<close>

theorem qoi_decode_reads_in_bounds:
  assumes "length data < 2 ^ 31"
  shows "qoi_decode malloc data (int (length data)) desc chans \<noteq> None
     \<and> (22 \<le> length data \<and> (chans = 0 \<or> chans = 3 \<or> chans = 4)
          \<and> \<not> dec_invalid (hdr_u32 data 0) (hdr_desc data desc)
        \<longrightarrow> (\<forall>k. k \<le> unat (width (hdr_desc data desc)) * unat (height (hdr_desc data desc))
              \<longrightarrow> (\<exists>st. dec_vars_after data (int (length data)) desc chans k = Some st
                       \<and> unat (idx st) + 4 \<le> length data
                       \<and> unat (idx st) \<le> unat (dec_px_chunks (int (length data))) + 4)))"
proof (intro conjI impI allI)
  have small: "length data < 2 ^ 32" using assms by simp
  show "qoi_decode malloc data (int (length data)) desc chans \<noteq> None"
  proof (cases "(chans \<noteq> 0 \<and> chans \<noteq> 3 \<and> chans \<noteq> 4) \<or> int (length data) < 22")
    case True
    then show ?thesis using qoi_decode_early[OF True, of malloc data desc] by simp
  next
    case False
    then have l: "22 \<le> length data" and ch: "chans = 0 \<or> chans = 3 \<or> chans = 4" by auto
    have l14: "14 \<le> length data" using l by simp
    show ?thesis
    proof (cases "dec_invalid (hdr_u32 data 0) (hdr_desc data desc)")
      case True
      then show ?thesis using qoi_decode_header[OF False l14 True, of malloc] by simp
    next
      case v: False
      obtain st where "dec_vars_after data (int (length data)) desc chans (npx (hdr_desc data desc))
          = Some st"
        using dec_vars_after_safe[OF l small ch v order_refl] by blast
      then show ?thesis unfolding qoi_decode_loop[OF False l14 v] by simp
    qed
  qed
next
  fix k
  assume a: "22 \<le> length data \<and> (chans = 0 \<or> chans = 3 \<or> chans = 4)
          \<and> \<not> dec_invalid (hdr_u32 data 0) (hdr_desc data desc)"
    and k: "k \<le> unat (width (hdr_desc data desc)) * unat (height (hdr_desc data desc))"
  have small: "length data < 2 ^ 32" using assms by simp
  have l: "22 \<le> length data" and ch: "chans = 0 \<or> chans = 3 \<or> chans = 4"
    and v: "\<not> dec_invalid (hdr_u32 data 0) (hdr_desc data desc)" using a by blast+
  have kn: "k \<le> npx (hdr_desc data desc)" using k by (simp add: npx_def)
  have pc: "unat (dec_px_chunks (int (length data))) + 8 = length data"
    by (rule dec_px_chunks_eq) (use l small in simp_all)
  obtain st where st: "dec_vars_after data (int (length data)) desc chans k = Some st"
      "unat (idx st) + 4 \<le> length data"
    using dec_vars_after_safe[OF l small ch v kn] by blast
  moreover have "unat (idx st) \<le> unat (dec_px_chunks (int (length data))) + 4"
    using st(2) pc by linarith
  ultimately show "\<exists>st. dec_vars_after data (int (length data)) desc chans k = Some st
                       \<and> unat (idx st) + 4 \<le> length data
                       \<and> unat (idx st) \<le> unat (dec_px_chunks (int (length data))) + 4"
    by blast
qed

theorem qoi_decode_reads_in_bounds_witness:
  "qoi_decode (\<lambda>n. True)
       [0x71, 0x6f, 0x69, 0x66, 0, 0, 0, 2, 0, 0, 0, 1, 3, 0, 0xfe, 1, 2, 3, 0, 0, 0, 0, 0, 0, 0, 1] 26
       \<lparr>width = 0, height = 0, channels = 0, colorspace = 0\<rparr> 0 \<noteq> None
   \<and> (\<exists>st. dec_vars_after
         [0x71, 0x6f, 0x69, 0x66, 0, 0, 0, 2, 0, 0, 0, 1, 3, 0, 0xfe, 1, 2, 3, 0, 0, 0, 0, 0, 0, 0, 1] 26
         \<lparr>width = 0, height = 0, channels = 0, colorspace = 0\<rparr> 0 2 = Some st
        \<and> unat (idx st) + 4 \<le> 26)"
proof -
  let ?b = "[0x71, 0x6f, 0x69, 0x66, 0, 0, 0, 2, 0, 0, 0, 1, 3, 0, 0xfe, 1, 2, 3,
             0, 0, 0, 0, 0, 0, 0, 1 :: byte]"
  let ?d = "\<lparr>width = 0, height = 0, channels = 0, colorspace = 0 :: byte\<rparr>"
  have len: "length ?b = 26" by simp
  have small: "length ?b < 2 ^ 31" by simp
  have h: "hdr_desc ?b ?d = \<lparr>width = 2, height = 1, channels = 3, colorspace = 0\<rparr>"
    by (simp add: hdr_desc_def hdr_u32_def)
  have m: "hdr_u32 ?b 0 = QOI_MAGIC" by (simp add: hdr_u32_def QOI_MAGIC_def)
  have v: "\<not> dec_invalid (hdr_u32 ?b 0) (hdr_desc ?b ?d)"
    unfolding h m by (simp add: dec_invalid_def QOI_MAXIMUM_PIXELS_def word_le_nat_alt unat_div)
  note t = qoi_decode_reads_in_bounds[OF small, of "\<lambda>n. True" ?d 0]
  have a: "qoi_decode (\<lambda>n. True) ?b (int (length ?b)) ?d 0 \<noteq> None"
    by (rule t[THEN conjunct1])
  have p: "22 \<le> length ?b \<and> ((0 :: int) = 0 \<or> (0 :: int) = 3 \<or> (0 :: int) = 4)
          \<and> \<not> dec_invalid (hdr_u32 ?b 0) (hdr_desc ?b ?d)"
    using v by simp
  have k: "2 \<le> unat (width (hdr_desc ?b ?d)) * unat (height (hdr_desc ?b ?d))"
    unfolding h by simp
  have "\<exists>st. dec_vars_after ?b (int (length ?b)) ?d 0 2 = Some st
          \<and> unat (idx st) + 4 \<le> length ?b
          \<and> unat (idx st) \<le> unat (dec_px_chunks (int (length ?b))) + 4"
    by (rule t[THEN conjunct2, THEN mp, OF p, THEN spec, THEN mp, OF k])
  then have b: "\<exists>st. dec_vars_after ?b (int (length ?b)) ?d 0 2 = Some st
          \<and> unat (idx st) + 4 \<le> length ?b" by blast
  show ?thesis using a b unfolding len by simp
qed

end
